theory Spec2Isabelle
  imports Complex_Main
begin

section \<open>Strings and the two numeric patterns\<close>

text \<open>
  A Go string is a sequence of bytes; \<^typ>\<open>string\<close> is a list of bytes too. The patterns
  of \<^verbatim>\<open>sendRequest\<close> only ever look for the ASCII digits and the dot, and no byte of a
  multi-byte UTF-8 sequence is one of those, so scanning bytes finds the same matches as
  scanning runes.
\<close>

definition isDigit :: "char \<Rightarrow> bool" where
  "isDigit c = (c \<in> set ''0123456789'')"

text \<open>
  \<^verbatim>\<open>regexp.MustCompile(`\d+`).FindString(s)\<close>: the leftmost match, taken greedily, and
  the empty string when there is none.
\<close>

definition FindString :: "string \<Rightarrow> string" where
  "FindString s = takeWhile isDigit (dropWhile (\<lambda>c. \<not> isDigit c) s)"

text \<open>
  One match of \<^verbatim>\<open>\d+(\.\d+)?\<close> at the head of a text that starts with a digit: all the
  digits, then a dot with at least one digit behind it when there is one (the optional
  group is tried first and dropped when it fails). Returns the match and the rest of the
  text.
\<close>

definition matchNumber :: "string \<Rightarrow> string \<times> string" where
  "matchNumber s =
     (let ip = takeWhile isDigit s; r = dropWhile isDigit s
      in case r of
           [] \<Rightarrow> (ip, r)
         | c # r' \<Rightarrow>
             (if c = CHR ''.'' \<and> takeWhile isDigit r' \<noteq> []
              then (ip @ [c] @ takeWhile isDigit r', dropWhile isDigit r')
              else (ip, r)))"

text \<open>
  \<^verbatim>\<open>regexp.MustCompile(`\d+(\.\d+)?`).FindAllString(s, -1)\<close>: the successive
  non-overlapping matches, left to right. A match is never empty, so the search resumes
  right behind it.
\<close>

function FindAllString :: "string \<Rightarrow> string list" where
  "FindAllString [] = []"
| "FindAllString (c # cs) =
     (if isDigit c
      then fst (matchNumber (c # cs)) # FindAllString (snd (matchNumber (c # cs)))
      else FindAllString cs)"
  by pat_completeness auto
termination
proof (relation "measure length")
  show "wf (measure length)" by simp
next
  fix c :: char and cs :: string
  assume d: "isDigit c"
  have b: "\<And>xs. length (dropWhile isDigit xs) \<le> length xs"
    by (rule length_dropWhile_le)
  have "length (snd (matchNumber (c # cs))) < Suc (length cs)"
  proof (cases "dropWhile isDigit cs")
    case Nil
    with d show ?thesis
      by (simp add: matchNumber_def Let_def del: dropWhile_eq_Nil_conv)
  next
    case (Cons x r')
    have "length (dropWhile isDigit r') \<le> length r'" by (rule b)
    moreover have "Suc (length r') \<le> length cs" using b [of cs] Cons by simp
    moreover have "length (dropWhile isDigit cs) \<le> length cs" by (rule b)
    ultimately show ?thesis using d Cons
      by (simp add: matchNumber_def Let_def)
  qed
  then show "(snd (matchNumber (c # cs)), c # cs) \<in> measure length" by simp
next
  fix c :: char and cs :: string
  show "(cs, c # cs) \<in> measure length" by simp
qed

text \<open>
  The shape of a numeric substring: one or more digits, optionally followed by a decimal
  point and more digits.
\<close>

definition isDecimal :: "string \<Rightarrow> bool" where
  "isDecimal s =
     (let ip = takeWhile isDigit s; r = dropWhile isDigit s
      in ip \<noteq> [] \<and> (r = [] \<or> (hd r = CHR ''.'' \<and> tl r \<noteq> [] \<and> list_all isDigit (tl r))))"

section \<open>Numbers\<close>

text \<open>
  A \<^verbatim>\<open>float64\<close> that is neither an infinity nor a NaN is a rational number, and the
  program never produces the other two: every value comes from \<^verbatim>\<open>toFloat\<close>, which turns
  a failed conversion into 0. So a finite \<^verbatim>\<open>float64\<close> is modelled by the rational it
  denotes, and the conversion rounds to the nearest binary64 value, ties to even.
\<close>

type_synonym float64 = rat

definition pow2 :: "int \<Rightarrow> rat" where
  "pow2 e = (if 0 \<le> e then 2 ^ nat e else 1 / 2 ^ nat (- e))"

fun bitlen :: "nat \<Rightarrow> nat" where
  "bitlen n = (if n = 0 then 0 else Suc (bitlen (n div 2)))"

text \<open>The binary exponent of a positive rational: \<open>2 ^ e \<le> q < 2 ^ (e + 1)\<close>.\<close>

definition ilog2 :: "rat \<Rightarrow> int" where
  "ilog2 q =
     (let d = int (bitlen (nat (fst (quotient_of q)))) - int (bitlen (nat (snd (quotient_of q))))
      in if pow2 d \<le> q then d else d - 1)"

definition roundHalfEven :: "rat \<Rightarrow> int" where
  "roundHalfEven q =
     (let f = \<lfloor>q\<rfloor>; d = q - of_int f
      in if d < 1 / 2 then f
         else if 1 / 2 < d then f + 1
         else if even f then f else f + 1)"

text \<open>
  Rounding a non-negative rational to binary64: 53 significant bits, the unit in the last
  place never below \<open>2 ^ (- 1074)\<close> (subnormals), and \<open>None\<close> when the rounded value
  passes the largest finite \<^verbatim>\<open>float64\<close>.
\<close>

definition roundFloat64 :: "rat \<Rightarrow> float64 option" where
  "roundFloat64 q =
     (if q \<le> 0 then Some 0
      else let u = pow2 (max (ilog2 q) (- 1022) - 52);
               r = of_int (roundHalfEven (q / u)) * u
           in if pow2 1024 \<le> r then None else Some r)"

definition digitVal :: "char \<Rightarrow> nat" where
  "digitVal c = of_char c - 48"

definition digitsVal :: "string \<Rightarrow> nat" where
  "digitsVal ds = foldl (\<lambda>a c. 10 * a + digitVal c) 0 ds"

text \<open>
  \<^verbatim>\<open>strconv.ParseFloat(s, 64)\<close> belongs to the Go library. The model covers decimal
  literals: an optional sign, then digits, or digits, a dot and digits. On those Go returns
  the nearest \<^verbatim>\<open>float64\<close>, or a range error when the magnitude is too large. The
  matches of the two patterns are such literals without a sign. Every other string is
  reported as a syntax error here; Go accepts more (exponents, hexadecimal, a dot at either
  end, \<^verbatim>\<open>inf\<close>, \<^verbatim>\<open>nan\<close>), and nothing below depends on it.
\<close>

datatype numError = ErrSyntax | ErrRange

definition parseUnsigned :: "string \<Rightarrow> numError + float64" where
  "parseUnsigned s =
     (let ip = takeWhile isDigit s; r = dropWhile isDigit s
      in if ip = [] then Inl ErrSyntax
         else case r of
                [] \<Rightarrow> (case roundFloat64 (of_nat (digitsVal ip)) of
                         None \<Rightarrow> Inl ErrRange | Some v \<Rightarrow> Inr v)
              | c # fp \<Rightarrow>
                  (if c = CHR ''.'' \<and> fp \<noteq> [] \<and> list_all isDigit fp
                   then (case roundFloat64 (of_nat (digitsVal (ip @ fp)) / 10 ^ length fp) of
                           None \<Rightarrow> Inl ErrRange | Some v \<Rightarrow> Inr v)
                   else Inl ErrSyntax))"

definition ParseFloat :: "string \<Rightarrow> numError + float64" where
  "ParseFloat s =
     (case s of
        [] \<Rightarrow> Inl ErrSyntax
      | c # r \<Rightarrow>
          (if c = CHR ''-''
           then (case parseUnsigned r of Inl err \<Rightarrow> Inl err | Inr v \<Rightarrow> Inr (- v))
           else if c = CHR ''+'' then parseUnsigned r
           else parseUnsigned s))"

definition toFloat :: "string \<Rightarrow> float64" where
  "toFloat s = (case ParseFloat s of Inl err \<Rightarrow> 0 | Inr num \<Rightarrow> num)"

section \<open>Events and the metrics of one file\<close>

text \<open>
  \<^verbatim>\<open>decoder.Decode(&event)\<close> fills a \<^verbatim>\<open>map[string]interface{}\<close>: a finite map from
  keys to decoded JSON values. Reading a key that is absent gives the nil interface,
  \<open>None\<close> here.
\<close>

datatype json =
    JNull
  | JBool bool
  | JNumber rat
  | JString string
  | JArray "json list"
  | JObject "(string \<times> json) list"

type_synonym event = "string \<rightharpoonup> json"

record Metrics =
  InitialCoverage :: float64
  FinalCoverage :: float64
  LinesCovered :: float64
  TotalLines :: float64
  TestAdded :: float64

definition zeroMetrics :: Metrics where
  "zeroMetrics = \<lparr>InitialCoverage = 0, FinalCoverage = 0, LinesCovered = 0,
     TotalLines = 0, TestAdded = 0\<rparr>"

text \<open>
  What a piece of the program does: it returns a value, it returns an error, or it panics.
  A panic is not an error value: nothing in the program recovers from it, and it ends the
  process.
\<close>

datatype error =
    MarshalError
  | NewRequestError
  | TransportError
  | NonOKStatus nat string
  | StreamError

datatype 'a outcome = Return 'a | Fail error | Panic

text \<open>The comparison \<^verbatim>\<open>event[k] == "text"\<close> of an interface value with a string.\<close>

definition eqString :: "json option \<Rightarrow> string \<Rightarrow> bool" where
  "eqString v s = (v = Some (JString s))"

text \<open>
  The checked assertion \<^verbatim>\<open>coverageStr, ok := event[k].(string)\<close> followed by the test
  \<^verbatim>\<open>!ok || coverageStr == ""\<close>.
\<close>

definition missingOrEmpty :: "json option \<Rightarrow> bool" where
  "missingOrEmpty v = (case v of Some (JString s) \<Rightarrow> s = [] | _ \<Rightarrow> True)"

text \<open>
  The unchecked assertion \<^verbatim>\<open>event[k].(string)\<close>: it panics when the value is absent or
  not a string.
\<close>

definition assertString :: "json option \<Rightarrow> string outcome" where
  "assertString v = (case v of Some (JString s) \<Rightarrow> Return s | _ \<Rightarrow> Panic)"

text \<open>The branch of the loop body for \<^verbatim>\<open>calculatedCoverage\<close> (lines 212 to 222).\<close>

definition calculatedCoverageStep :: "Metrics \<Rightarrow> event \<Rightarrow> Metrics outcome" where
  "calculatedCoverageStep m ev =
     (case assertString (ev ''calculatedCoverage'') of
        Return s \<Rightarrow>
          (let numbers = FindAllString s
           in if numbers \<noteq> []
              then Return (m\<lparr>InitialCoverage := toFloat (last numbers)\<rparr>)
              else Return m)
      | Fail e \<Rightarrow> Fail e
      | Panic \<Rightarrow> Panic)"

text \<open>
  The treatment of \<^verbatim>\<open>linesCovered\<close>, \<^verbatim>\<open>totalLines\<close> and \<^verbatim>\<open>testAdded\<close> (lines 246
  to 286), which the source writes out three times: the variable is set to 0 when the
  field is absent, not a string or empty; then the field is asserted to be a string and
  its first run of digits, when there is one, replaces the variable.
\<close>

definition fieldStep :: "json option \<Rightarrow> float64 \<Rightarrow> float64 outcome" where
  "fieldStep v cur =
     (let cur1 = (if missingOrEmpty v then 0 else cur)
      in case assertString v of
           Return s \<Rightarrow>
             (let match = FindString s
              in if match \<noteq> [] then Return (toFloat match) else Return cur1)
         | Fail e \<Rightarrow> Fail e
         | Panic \<Rightarrow> Panic)"

text \<open>
  The treatment of \<^verbatim>\<open>coverageIncreased\<close> (lines 227 to 244): as above, with the
  comparison against the sentinel text between the reset and the assertion.
\<close>

definition coverageStep :: "json option \<Rightarrow> float64 \<Rightarrow> float64 \<Rightarrow> float64 outcome" where
  "coverageStep v initialCoverage cur =
     (let cur1 = (if missingOrEmpty v then 0 else cur);
          cur2 = (if eqString v ''Coverage did not increase'' then initialCoverage else cur1)
      in case assertString v of
           Return s \<Rightarrow>
             (let match = FindString s
              in if match \<noteq> [] then Return (toFloat match) else Return cur2)
         | Fail e \<Rightarrow> Fail e
         | Panic \<Rightarrow> Panic)"

text \<open>The branch of the loop body for \<^verbatim>\<open>summary\<close> (lines 224 to 287).\<close>

definition summaryStep :: "Metrics \<Rightarrow> event \<Rightarrow> Metrics outcome" where
  "summaryStep m ev =
     (case coverageStep (ev ''coverageIncreased'') (InitialCoverage m) (FinalCoverage m) of
        Return fc \<Rightarrow>
          (case fieldStep (ev ''linesCovered'') (LinesCovered m) of
             Return lc \<Rightarrow>
               (case fieldStep (ev ''totalLines'') (TotalLines m) of
                  Return tot \<Rightarrow>
                    (case fieldStep (ev ''testAdded'') (TestAdded m) of
                       Return ta \<Rightarrow>
                         Return (m\<lparr>FinalCoverage := fc, LinesCovered := lc,
                                   TotalLines := tot, TestAdded := ta\<rparr>)
                     | Fail e \<Rightarrow> Fail e
                     | Panic \<Rightarrow> Panic)
                | Fail e \<Rightarrow> Fail e
                | Panic \<Rightarrow> Panic)
           | Fail e \<Rightarrow> Fail e
           | Panic \<Rightarrow> Panic)
      | Fail e \<Rightarrow> Fail e
      | Panic \<Rightarrow> Panic)"

text \<open>
  One pass through the body of the loop, for a decoded event: the two tests on
  \<^verbatim>\<open>dataType\<close> one after the other, as in the source.
\<close>

definition eventStep :: "Metrics \<Rightarrow> event \<Rightarrow> Metrics outcome" where
  "eventStep m ev =
     (case (if eqString (ev ''dataType'') ''calculatedCoverage''
            then calculatedCoverageStep m ev else Return m) of
        Return m1 \<Rightarrow>
          (if eqString (ev ''dataType'') ''summary'' then summaryStep m1 ev else Return m1)
      | Fail e \<Rightarrow> Fail e
      | Panic \<Rightarrow> Panic)"

text \<open>
  What \<^verbatim>\<open>decoder.Decode\<close> yields before the end of the stream: a decoded object, or an
  error (malformed or truncated JSON, a value that cannot be stored in the map, a read
  error). The JSON value \<^verbatim>\<open>null\<close> decodes without error and leaves the map nil, which
  reads like the empty map. The end of the list is \<^verbatim>\<open>io.EOF\<close>.
\<close>

datatype decoded = Event event | DecodeError

text \<open>The loop of \<^verbatim>\<open>sendRequest\<close> (lines 201 to 288), from the accumulated values.\<close>

fun decodeLoop :: "Metrics \<Rightarrow> decoded list \<Rightarrow> Metrics outcome" where
  "decodeLoop m [] = Return m"
| "decodeLoop m (DecodeError # rest) = Fail StreamError"
| "decodeLoop m (Event ev # rest) =
     (case eventStep m ev of
        Return m' \<Rightarrow> decodeLoop m' rest
      | Fail e \<Rightarrow> Fail e
      | Panic \<Rightarrow> Panic)"

text \<open>
  What happens to one request: marshalling fails, the request cannot be built, the
  transport fails, or a response arrives with a status and a body, the body read as the
  stream of decoded values.
\<close>

datatype exchange =
    MarshalFails
  | NewRequestFails
  | DoFails
  | Response nat string "decoded list"

fun sendRequest :: "exchange \<Rightarrow> Metrics outcome" where
  "sendRequest MarshalFails = Fail MarshalError"
| "sendRequest NewRequestFails = Fail NewRequestError"
| "sendRequest DoFails = Fail TransportError"
| "sendRequest (Response status body stream) =
     (if status \<noteq> 200 then Fail (NonOKStatus status body)
      else decodeLoop zeroMetrics stream)"

section \<open>Enumerating the files\<close>

text \<open>\<^verbatim>\<open>strings.Contains(s, substr)\<close>: \<open>substr\<close> occurs in \<open>s\<close> at some position.\<close>

fun hasPrefix :: "string \<Rightarrow> string \<Rightarrow> bool" where
  "hasPrefix s [] = True"
| "hasPrefix [] (p # ps) = False"
| "hasPrefix (c # cs) (p # ps) = (c = p \<and> hasPrefix cs ps)"

fun Contains :: "string \<Rightarrow> string \<Rightarrow> bool" where
  "Contains [] substr = (substr = [])"
| "Contains (c # cs) substr = (hasPrefix (c # cs) substr \<or> Contains cs substr)"

definition isTestFile :: "string \<Rightarrow> bool" where
  "isTestFile path = (Contains path ''_test.go'' \<or> Contains path ''test_'')"

text \<open>
  \<^verbatim>\<open>filepath.Ext(path)\<close>: the suffix that starts at the last dot of the last element of
  the path, empty when that element has no dot.
\<close>

definition Ext :: "string \<Rightarrow> string" where
  "Ext path =
     (let back = takeWhile (\<lambda>c. c \<noteq> CHR ''/'') (rev path)
      in if CHR ''.'' \<in> set back
         then CHR ''.'' # rev (takeWhile (\<lambda>c. c \<noteq> CHR ''.'') back)
         else [])"

text \<open>
  \<^verbatim>\<open>filepath.Join(dir, name)\<close> as \<^verbatim>\<open>filepath.Walk\<close> uses it: \<open>dir\<close> is a cleaned
  path and \<open>name\<close> the name of one of its entries.
\<close>

definition Join :: "string \<Rightarrow> string \<Rightarrow> string" where
  "Join dir name = (if dir = ''/'' then dir @ name else dir @ ''/'' @ name)"

text \<open>
  What \<^verbatim>\<open>filepath.Walk\<close> meets below the root: a file (anything that is not a
  directory), a directory with its entries in the order of the walk, an entry whose
  \<^verbatim>\<open>Lstat\<close> fails, a directory that cannot be read. Each carries its own name,
  \<^verbatim>\<open>info.Name()\<close>.
\<close>

datatype fsnode =
    File string
  | Dir string "fsnode list"
  | LstatFails string
  | ReadDirFails string

fun nodeName :: "fsnode \<Rightarrow> string" where
  "nodeName (File n) = n"
| "nodeName (Dir n entries) = n"
| "nodeName (LstatFails n) = n"
| "nodeName (ReadDirFails n) = n"

fun isDir :: "fsnode \<Rightarrow> bool" where
  "isDir (Dir n entries) = True"
| "isDir (ReadDirFails n) = True"
| "isDir (File n) = False"
| "isDir (LstatFails n) = False"

text \<open>What the callback and the walk return: \<^verbatim>\<open>nil\<close>, \<^verbatim>\<open>filepath.SkipDir\<close>, an error.\<close>

datatype walkResult = WalkNil | SkipDir | WalkError

text \<open>
  The function literal given to \<^verbatim>\<open>filepath.Walk\<close> (lines 56 to 68). It appends to the
  variable \<^verbatim>\<open>goFiles\<close> of \<^verbatim>\<open>main\<close>, which is passed in and returned here.
\<close>

fun walkFn :: "string list \<Rightarrow> string \<Rightarrow> fsnode \<Rightarrow> walkResult \<times> string list" where
  "walkFn goFiles path (LstatFails n) = (WalkError, goFiles)"
| "walkFn goFiles path (ReadDirFails n) = (WalkError, goFiles)"
| "walkFn goFiles path (Dir n entries) =
     (if n = ''venv'' \<or> n = ''migrations'' \<or> n = ''__pycache__''
      then (SkipDir, goFiles) else (WalkNil, goFiles))"
| "walkFn goFiles path (File n) =
     (if Ext path = ''.py'' \<and> \<not> isTestFile path \<and> n \<noteq> ''__init__.py''
      then (WalkNil, goFiles @ [path]) else (WalkNil, goFiles))"

text \<open>
  \<^verbatim>\<open>filepath.walk\<close> of the Go library: the callback on the entry itself, then on the
  entries of a directory, one after the other. \<^verbatim>\<open>SkipDir\<close> from a directory leaves that
  directory and goes on with the next entry; an error ends the walk.
\<close>

fun walk :: "string list \<Rightarrow> string \<Rightarrow> fsnode \<Rightarrow> walkResult \<times> string list"
  and walkEntries :: "string list \<Rightarrow> string \<Rightarrow> fsnode list \<Rightarrow> walkResult \<times> string list"
where
  "walk goFiles path (File n) = walkFn goFiles path (File n)"
| "walk goFiles path (LstatFails n) = walkFn goFiles path (LstatFails n)"
| "walk goFiles path (ReadDirFails n) = walkFn goFiles path (ReadDirFails n)"
| "walk goFiles path (Dir n entries) =
     (case walkFn goFiles path (Dir n entries) of
        (WalkNil, goFiles') \<Rightarrow> walkEntries goFiles' path entries
      | (SkipDir, goFiles') \<Rightarrow> (SkipDir, goFiles')
      | (WalkError, goFiles') \<Rightarrow> (WalkError, goFiles'))"
| "walkEntries goFiles path [] = (WalkNil, goFiles)"
| "walkEntries goFiles path (e # es) =
     (case walk goFiles (Join path (nodeName e)) e of
        (WalkNil, goFiles') \<Rightarrow> walkEntries goFiles' path es
      | (SkipDir, goFiles') \<Rightarrow>
          (if isDir e then walkEntries goFiles' path es else (SkipDir, goFiles'))
      | (WalkError, goFiles') \<Rightarrow> (WalkError, goFiles'))"

text \<open>
  \<^verbatim>\<open>filepath.Walk(rootDir, ...)\<close> as \<^verbatim>\<open>main\<close> uses its result: \<open>None\<close> when the walk
  returns an error, and \<^verbatim>\<open>goFiles\<close> otherwise (\<^verbatim>\<open>SkipDir\<close> at the root is no error).
\<close>

definition Walk :: "string \<Rightarrow> fsnode \<Rightarrow> string list option" where
  "Walk rootDir tree =
     (case walk [] rootDir tree of
        (WalkError, goFiles) \<Rightarrow> None
      | (r, goFiles) \<Rightarrow> Some goFiles)"

section \<open>The batch driver\<close>

text \<open>Instants and durations, in the clock's unit.\<close>

type_synonym time = int

record BatchRecord =
  relativeName :: string
  metrics :: Metrics
  duration :: int
  startTime :: time
  endTime :: time

type_synonym sheet = "nat \<rightharpoonup> BatchRecord"

text \<open>
  Everything the run depends on and does not decide: the successive readings of
  \<^verbatim>\<open>time.Now()\<close>, what happens to the request for a file (the \<open>n\<close>-th request of the
  run), the result of \<^verbatim>\<open>filepath.Rel\<close>, whether \<^verbatim>\<open>SaveAs\<close> succeeds after a given row
  was written, and what a save that fails leaves in the file.
\<close>

record world =
  clock :: "nat \<Rightarrow> time"
  service :: "nat \<Rightarrow> string \<Rightarrow> exchange"
  rel :: "string \<Rightarrow> string option"
  saveSucceeds :: "nat \<Rightarrow> bool"
  failedSave :: "nat \<Rightarrow> sheet option \<Rightarrow> sheet option"

text \<open>
  The state of the loop of \<^verbatim>\<open>main\<close>: the readings of the clock taken so far, the
  requests sent so far, each with the start time read just before it (what the service
  sees of the run), the variable \<^verbatim>\<open>row\<close>, the data rows of the workbook in memory, and
  the data rows of the stored file (\<open>None\<close>: no file yet).
\<close>

record driver =
  ticks :: nat
  dispatched :: "(string \<times> time) list"
  row :: nat
  workbook :: sheet
  stored :: "sheet option"

text \<open>
  \<^verbatim>\<open>measureDuration\<close> (lines 147 to 163). On success it returns the duration, the
  metrics and both instants; on an error, the error (the source also returns the start
  time, which \<^verbatim>\<open>main\<close> does not read).
\<close>

definition measureDuration ::
  "world \<Rightarrow> driver \<Rightarrow> string \<Rightarrow> (int \<times> Metrics \<times> time \<times> time) outcome \<times> driver" where
  "measureDuration w st file =
     (let start = clock w (ticks st);
          st1 = st\<lparr>ticks := ticks st + 1, dispatched := dispatched st @ [(file, start)]\<rparr>
      in case sendRequest (service w (length (dispatched st)) file) of
           Fail err \<Rightarrow> (Fail err, st1)
         | Panic \<Rightarrow> (Panic, st1)
         | Return m \<Rightarrow>
             (let finish = clock w (ticks st1)
              in (Return (finish - start, m, start, finish), st1\<lparr>ticks := ticks st1 + 1\<rparr>)))"

text \<open>
  One pass through the loop of \<^verbatim>\<open>main\<close> (lines 93 to 133); \<open>None\<close> when the pass
  panics, which ends the process.
\<close>

definition processFile :: "world \<Rightarrow> driver \<Rightarrow> string \<Rightarrow> driver option" where
  "processFile w st file =
     (case measureDuration w st file of
        (Panic, st1) \<Rightarrow> None
      | (Fail err, st1) \<Rightarrow> Some st1
      | (Return (d, m, start, finish), st1) \<Rightarrow>
          (let name = (case rel w file of None \<Rightarrow> file | Some r \<Rightarrow> r);
               data = \<lparr>relativeName = name, metrics = m, duration = d,
                         startTime = start, endTime = finish\<rparr>;
               st2 = st1\<lparr>workbook := (workbook st1)(row st1 \<mapsto> data)\<rparr>;
               st3 = (if saveSucceeds w (row st2)
                      then st2\<lparr>stored := Some (workbook st2)\<rparr>
                      else st2\<lparr>stored := failedSave w (row st2) (stored st2)\<rparr>)
           in Some (st3\<lparr>row := row st3 + 1\<rparr>)))"

fun mainLoop :: "world \<Rightarrow> driver \<Rightarrow> string list \<Rightarrow> driver option" where
  "mainLoop w st [] = Some st"
| "mainLoop w st (file # files) =
     (case processFile w st file of
        None \<Rightarrow> None
      | Some st' \<Rightarrow> mainLoop w st' files)"

text \<open>
  The state before the first file: \<^verbatim>\<open>main\<close> has read the clock once, the workbook has
  its header in row 1 and no data, \<^verbatim>\<open>row\<close> is 2, nothing is stored.
\<close>

definition initialDriver :: driver where
  "initialDriver =
     \<lparr>ticks = 1, dispatched = [], row = 2, workbook = Map.empty, stored = None\<rparr>"

text \<open>
  How \<^verbatim>\<open>main\<close> ends: it returns early (\<^verbatim>\<open>os.Getwd\<close> or the walk failed), it panics
  in some pass of the loop, or the loop runs to the end of \<^verbatim>\<open>goFiles\<close>.
\<close>

datatype run = ReturnedEarly | Crashed | Completed driver

definition main :: "world \<Rightarrow> string option \<Rightarrow> fsnode \<Rightarrow> run" where
  "main w getwd tree =
     (case getwd of
        None \<Rightarrow> ReturnedEarly
      | Some rootDir \<Rightarrow>
          (case Walk rootDir tree of
             None \<Rightarrow> ReturnedEarly
           | Some goFiles \<Rightarrow>
               (case mainLoop w initialDriver goFiles of
                  None \<Rightarrow> Crashed
                | Some st \<Rightarrow> Completed st)))"

section \<open>Predicates used in the statements\<close>

text \<open>All five fields of a metrics record are non-negative.\<close>

definition nonNegative :: "Metrics \<Rightarrow> bool" where
  "nonNegative m = (0 \<le> InitialCoverage m \<and> 0 \<le> FinalCoverage m \<and> 0 \<le> LinesCovered m
     \<and> 0 \<le> TotalLines m \<and> 0 \<le> TestAdded m)"

text \<open>
  A field of a \<^verbatim>\<open>summary\<close> event decides its variable by itself: it is a text that is
  empty or contains a digit.
\<close>

definition settles :: "json option \<Rightarrow> bool" where
  "settles v = (case v of Some (JString s) \<Rightarrow> s = [] \<or> list_ex isDigit s | _ \<Rightarrow> False)"

text \<open>
  The fields that the loop reads from a recognised event are texts: the one field of a
  \<^verbatim>\<open>calculatedCoverage\<close> event, the four fields of a \<^verbatim>\<open>summary\<close> event.
\<close>

definition textFields :: "event \<Rightarrow> bool" where
  "textFields ev =
     ((eqString (ev ''dataType'') ''calculatedCoverage'' \<longrightarrow>
         (case ev ''calculatedCoverage'' of Some (JString s) \<Rightarrow> True | _ \<Rightarrow> False))
      \<and> (eqString (ev ''dataType'') ''summary'' \<longrightarrow>
         list_all (\<lambda>k. case ev k of Some (JString s) \<Rightarrow> True | _ \<Rightarrow> False)
           [''coverageIncreased'', ''linesCovered'', ''totalLines'', ''testAdded'']))"

text \<open>
  The two tests of the callback that read the path: the extension is \<^verbatim>\<open>.py\<close> and
  \<^verbatim>\<open>isTestFile\<close> is false.
\<close>

definition accepted :: "string \<Rightarrow> bool" where
  "accepted path = (Ext path = ''.py'' \<and> \<not> isTestFile path)"

text \<open>
  What holds of the state of the loop after \<open>n\<close> files: the rows 2 up to \<^verbatim>\<open>row\<close> are
  the records, there are at most \<open>n\<close> of them, \<open>n\<close> requests were sent, and when the save
  that followed the last record succeeded the stored file is the workbook.
\<close>

definition driverInv :: "world \<Rightarrow> nat \<Rightarrow> driver \<Rightarrow> bool" where
  "driverInv w n st =
     (2 \<le> row st \<and> row st - 2 \<le> n \<and> dom (workbook st) = {2..<row st}
      \<and> length (dispatched st) = n
      \<and> (2 < row st \<and> saveSucceeds w (row st - 1) \<longrightarrow> stored st = Some (workbook st)))"

section \<open>Properties of the numeric extraction\<close>

lemma pow2_pos: "0 < pow2 e"
  by (simp add: pow2_def)

lemma roundHalfEven_nonneg: "0 \<le> q \<Longrightarrow> 0 \<le> roundHalfEven q"
proof -
  assume "0 \<le> q"
  then have "0 \<le> \<lfloor>q\<rfloor>" by simp
  then show ?thesis by (simp add: roundHalfEven_def Let_def)
qed

lemma roundFloat64_nonneg: "roundFloat64 q = Some v \<Longrightarrow> 0 \<le> v"
proof (cases "q \<le> 0")
  case True
  assume "roundFloat64 q = Some v"
  with True show ?thesis by (simp add: roundFloat64_def)
next
  case False
  assume r: "roundFloat64 q = Some v"
  define u where "u = pow2 (max (ilog2 q) (- 1022) - 52)"
  have u: "0 < u" by (simp add: u_def pow2_pos)
  with False have "0 \<le> q / u" by simp
  then have "0 \<le> roundHalfEven (q / u)" by (rule roundHalfEven_nonneg)
  then have "0 \<le> of_int (roundHalfEven (q / u)) * u" using u by simp
  moreover have "v = of_int (roundHalfEven (q / u)) * u"
    using r False by (simp add: roundFloat64_def Let_def u_def split: if_splits)
  ultimately show ?thesis by simp
qed

lemma parseUnsigned_nonneg: "parseUnsigned s = Inr v \<Longrightarrow> 0 \<le> v"
  by (auto simp: parseUnsigned_def Let_def split: if_splits list.splits option.splits
           dest: roundFloat64_nonneg)

lemma digit_not_sign: "isDigit c \<Longrightarrow> c \<noteq> CHR ''-'' \<and> c \<noteq> CHR ''+''"
  by (auto simp: isDigit_def)

text \<open>A text that starts with a digit converts to a value that is not negative.\<close>

lemma toFloat_nonneg: "isDigit c \<Longrightarrow> 0 \<le> toFloat (c # cs)"
  by (auto simp: toFloat_def ParseFloat_def split: sum.splits
           dest: parseUnsigned_nonneg digit_not_sign)

text \<open>
  The conversion is exact on a run of digits whose value is below \<open>2 ^ 53\<close>: such an
  integer is a \<^verbatim>\<open>float64\<close>.
\<close>

lemma bitlen_le: "n < 2 ^ k \<Longrightarrow> bitlen n \<le> k"
proof (induction k arbitrary: n)
  case 0
  then show ?case by simp
next
  case (Suc k)
  show ?case
  proof (cases "n = 0")
    case True
    then show ?thesis by simp
  next
    case False
    from Suc.prems have "n div 2 < 2 ^ k" by simp
    then have "bitlen (n div 2) \<le> k" by (rule Suc.IH)
    with False show ?thesis by (subst bitlen.simps) simp
  qed
qed

lemma bitlen_one: "bitlen (Suc 0) = Suc 0"
  by simp

lemma ilog2_small: "n < 2 ^ 53 \<Longrightarrow> ilog2 (of_nat n) \<le> 52"
proof -
  assume "n < 2 ^ 53"
  then have "bitlen n \<le> 53" by (rule bitlen_le)
  moreover have "quotient_of (of_nat n :: rat) = (int n, 1)"
    using quotient_of_int [of "int n"] by simp
  ultimately show ?thesis
    by (simp add: ilog2_def Let_def bitlen_one del: bitlen.simps)
qed

lemma roundHalfEven_int: "roundHalfEven (of_int k) = k"
  by (simp add: roundHalfEven_def Let_def)

lemma roundFloat64_small: 
  assumes "n < 2 ^ 53"
  shows "roundFloat64 (of_nat n) = Some (of_nat n)"
proof (cases "n = 0")
  case True
  then show ?thesis by (simp add: roundFloat64_def)
next
  case False
  define e where "e = max (ilog2 (of_nat n)) (- 1022)"
  have e: "e \<le> 52" using ilog2_small [OF assms] by (simp add: e_def)
  define k where "k = nat (52 - e)"
  have u: "pow2 (e - 52) = 1 / 2 ^ k"
    using e by (cases "e = 52") (auto simp: pow2_def k_def)
  have "(of_nat n :: rat) / pow2 (e - 52) = of_int (int n * 2 ^ k)"
    by (simp add: u)
  then have r: "roundHalfEven (of_nat n / pow2 (e - 52)) = int n * 2 ^ k"
    using roundHalfEven_int by metis
  have v: "of_int (int n * 2 ^ k) * pow2 (e - 52) = (of_nat n :: rat)"
    by (simp add: u)
  have "(of_nat n :: rat) < 2 ^ 53" using assms
    by (metis of_nat_less_iff of_nat_numeral of_nat_power)
  also have "\<dots> < pow2 1024" by (simp add: pow2_def)
  finally have b: "\<not> pow2 1024 \<le> (of_nat n :: rat)" by simp
  show ?thesis
    using False b unfolding roundFloat64_def Let_def e_def [symmetric] r v by simp
qed

lemma toFloat_small_integer:
  assumes "isDigit c" "\<forall>x \<in> set cs. isDigit x" "digitsVal (c # cs) < 2 ^ 53"
  shows "toFloat (c # cs) = of_nat (digitsVal (c # cs))"
proof -
  have t: "takeWhile isDigit (c # cs) = c # cs" using assms(1,2) by simp
  have d: "dropWhile isDigit (c # cs) = []" using assms(1,2) by simp
  have "parseUnsigned (c # cs) = Inr (of_nat (digitsVal (c # cs)))"
    unfolding parseUnsigned_def Let_def t d
    by (simp add: roundFloat64_small [OF assms(3)])
  then show ?thesis
    using digit_not_sign [OF assms(1)] by (simp add: toFloat_def ParseFloat_def)
qed

lemmas digit_eval = isDigit_def digitsVal_def digitVal_def FindString_def matchNumber_def

lemma matchNumber_split:
  "matchNumber s = (m, r) \<Longrightarrow> s = m @ r"
  by (auto simp: matchNumber_def Let_def split: list.splits if_splits)
    (metis takeWhile_dropWhile_id)+

lemma dot_not_digit: "\<not> isDigit (CHR ''.'')"
  by (simp add: isDigit_def)

lemma isDecimal_digits:
  assumes "ip \<noteq> []" "\<forall>c \<in> set ip. isDigit c"
  shows "isDecimal ip"
proof -
  have t: "takeWhile isDigit ip = ip"
    using assms(2) by (simp add: takeWhile_eq_all_conv)
  have d: "dropWhile isDigit ip = []"
    using assms(2) by simp
  show ?thesis
    using assms(1) by (simp add: isDecimal_def Let_def t d del: dropWhile_eq_Nil_conv)
qed

lemma isDecimal_fraction:
  assumes "ip \<noteq> []" "\<forall>c \<in> set ip. isDigit c" "fp \<noteq> []" "\<forall>c \<in> set fp. isDigit c"
  shows "isDecimal (ip @ CHR ''.'' # fp)"
proof -
  have t: "takeWhile isDigit (ip @ CHR ''.'' # fp) = ip"
    using assms(2) by (simp add: takeWhile_append2 dot_not_digit)
  have d: "dropWhile isDigit (ip @ CHR ''.'' # fp) = CHR ''.'' # fp"
    using assms(2) by (simp add: dropWhile_append2 dot_not_digit)
  show ?thesis
    using assms by (simp add: isDecimal_def Let_def t d list_all_iff)
qed

lemma matchNumber_decimal:
  assumes "isDigit c"
  shows "isDecimal (fst (matchNumber (c # cs)))"
proof -
  let ?ip = "c # takeWhile isDigit cs"
  have ip: "?ip \<noteq> []" "\<forall>x \<in> set ?ip. isDigit x"
    using assms by (auto dest: set_takeWhileD)
  show ?thesis
  proof (cases "dropWhile isDigit cs")
    case Nil
    with assms ip show ?thesis
      by (simp add: matchNumber_def Let_def isDecimal_digits del: dropWhile_eq_Nil_conv)
  next
    case (Cons x r')
    show ?thesis
    proof (cases "x = CHR ''.'' \<and> takeWhile isDigit r' \<noteq> []")
      case True
      have "\<forall>y \<in> set (takeWhile isDigit r'). isDigit y"
        by (auto dest: set_takeWhileD)
      with True ip have "isDecimal (?ip @ CHR ''.'' # takeWhile isDigit r')"
        by (intro isDecimal_fraction) auto
      with assms Cons True show ?thesis
        by (simp add: matchNumber_def Let_def)
    next
      case False
      have "isDecimal ?ip" using ip by (intro isDecimal_digits) auto
      with assms Cons False show ?thesis
        by (auto simp: matchNumber_def Let_def)
    qed
  qed
qed

lemma FindAllString_Nil_iff: "FindAllString s = [] \<longleftrightarrow> (\<forall>c \<in> set s. \<not> isDigit c)"
  by (induction s rule: FindAllString.induct) auto

lemma FindAllString_decimal: "m \<in> set (FindAllString s) \<Longrightarrow> isDecimal m"
  by (induction s rule: FindAllString.induct) (auto simp: matchNumber_decimal split: if_splits)

lemma FindAllString_last:
  "FindAllString s \<noteq> [] \<Longrightarrow>
     \<exists>pre post. s = pre @ last (FindAllString s) @ post \<and> (\<forall>c \<in> set post. \<not> isDigit c)"
proof (induction s rule: FindAllString.induct)
  case 1
  then show ?case by simp
next
  case (2 c cs)
  show ?case
  proof (cases "isDigit c")
    case False
    with 2 obtain pre post where
      "cs = pre @ last (FindAllString cs) @ post" "\<forall>c \<in> set post. \<not> isDigit c"
      by auto
    then have "c # cs = (c # pre) @ last (FindAllString cs) @ post
        \<and> (\<forall>c \<in> set post. \<not> isDigit c)"
      by simp
    moreover have "last (FindAllString (c # cs)) = last (FindAllString cs)"
      using False by simp
    ultimately show ?thesis by metis
  next
    case True
    obtain m r where mr: "matchNumber (c # cs) = (m, r)" by (cases "matchNumber (c # cs)")
    then have split: "c # cs = m @ r" by (rule matchNumber_split)
    show ?thesis
    proof (cases "FindAllString r = []")
      case Nil: True
      then have "\<forall>c \<in> set r. \<not> isDigit c" by (simp add: FindAllString_Nil_iff)
      with split have "c # cs = [] @ m @ r \<and> (\<forall>c \<in> set r. \<not> isDigit c)" by simp
      moreover have "last (FindAllString (c # cs)) = m"
        using True mr Nil by simp
      ultimately show ?thesis by metis
    next
      case False
      with 2(1) True mr obtain pre post where
        "r = pre @ last (FindAllString r) @ post" "\<forall>c \<in> set post. \<not> isDigit c"
        by auto
      with split have "c # cs = (m @ pre) @ last (FindAllString r) @ post
          \<and> (\<forall>c \<in> set post. \<not> isDigit c)" by simp
      moreover have "last (FindAllString (c # cs)) = last (FindAllString r)"
        using True mr False by simp
      ultimately show ?thesis by metis
    qed
  qed
qed


lemma isDecimal_has_digit: "isDecimal n \<Longrightarrow> \<exists>c \<in> set n. isDigit c"
proof -
  assume "isDecimal n"
  then have "takeWhile isDigit n \<noteq> []" by (simp add: isDecimal_def Let_def)
  then obtain c where "c \<in> set (takeWhile isDigit n)" by (cases "takeWhile isDigit n") auto
  then have "c \<in> set n \<and> isDigit c" by (auto dest: set_takeWhileD)
  then show ?thesis by blast
qed

lemma numeric_substring_iff:
  "(\<exists>pre n post. str = pre @ n @ post \<and> isDecimal n) \<longleftrightarrow> FindAllString str \<noteq> []"
proof
  assume "\<exists>pre n post. str = pre @ n @ post \<and> isDecimal n"
  then obtain pre n post where t: "str = pre @ n @ post" and "isDecimal n" by blast
  then obtain c where "c \<in> set n" "isDigit c" using isDecimal_has_digit by blast
  with t have "\<exists>c \<in> set str. isDigit c" by auto
  then show "FindAllString str \<noteq> []" by (simp add: FindAllString_Nil_iff)
next
  assume ne: "FindAllString str \<noteq> []"
  then obtain pre post where "str = pre @ last (FindAllString str) @ post"
    using FindAllString_last by blast
  moreover have "last (FindAllString str) \<in> set (FindAllString str)"
    using ne by simp
  then have "isDecimal (last (FindAllString str))"
    by (rule FindAllString_decimal)
  ultimately show "\<exists>pre n post. str = pre @ n @ post \<and> isDecimal n" by blast
qed

lemma eventStep_calculatedCoverage:
  assumes "ev ''dataType'' = Some (JString ''calculatedCoverage'')"
    and "ev ''calculatedCoverage'' = Some (JString str)"
  shows "eventStep m ev =
     Return (if FindAllString str \<noteq> []
             then m\<lparr>InitialCoverage := toFloat (last (FindAllString str))\<rparr> else m)"
  using assms
  by (simp add: eventStep_def eqString_def calculatedCoverageStep_def assertString_def Let_def)

section \<open>Properties of the reducer\<close>

text \<open>
  Claim C5. For a \<^verbatim>\<open>calculatedCoverage\<close> event whose text contains at least one numeric
  substring (digits, optionally a decimal point and more digits), one pass of the loop sets
  \<^verbatim>\<open>initialCoverage\<close> to the conversion of the last match of the pattern, which is such
  a substring of the text with no digit behind it, and changes nothing else; when the
  text contains no numeric substring the metrics are left as they were; the text
  \<^verbatim>\<open>...running at 12, now 45.5%\<close> gives 45.5.
\<close>

theorem calculatedCoverage_last_match:
  assumes "ev ''dataType'' = Some (JString ''calculatedCoverage'')"
    and "ev ''calculatedCoverage'' = Some (JString str)"
  shows "((\<exists>pre n post. str = pre @ n @ post \<and> isDecimal n) \<longrightarrow>
            eventStep m ev = Return (m\<lparr>InitialCoverage := toFloat (last (FindAllString str))\<rparr>)
            \<and> isDecimal (last (FindAllString str))
            \<and> (\<exists>pre post. str = pre @ last (FindAllString str) @ post
                  \<and> (\<forall>c \<in> set post. \<not> isDigit c)))
       \<and> (\<not> (\<exists>pre n post. str = pre @ n @ post \<and> isDecimal n) \<longrightarrow> eventStep m ev = Return m)
       \<and> (str = ''...running at 12, now 45.5%'' \<longrightarrow>
            eventStep m ev = Return (m\<lparr>InitialCoverage := 91 / 2\<rparr>))"
proof (intro conjI impI)
  assume "\<exists>pre n post. str = pre @ n @ post \<and> isDecimal n"
  then have ne: "FindAllString str \<noteq> []" by (rule iffD1 [OF numeric_substring_iff])
  show "eventStep m ev = Return (m\<lparr>InitialCoverage := toFloat (last (FindAllString str))\<rparr>)"
    using ne by (simp add: eventStep_calculatedCoverage [OF assms])
  have "last (FindAllString str) \<in> set (FindAllString str)"
    using ne by simp
  then show "isDecimal (last (FindAllString str))"
    by (rule FindAllString_decimal)
  show "\<exists>pre post. str = pre @ last (FindAllString str) @ post
      \<and> (\<forall>c \<in> set post. \<not> isDigit c)"
    using ne by (rule FindAllString_last)
next
  assume "\<not> (\<exists>pre n post. str = pre @ n @ post \<and> isDecimal n)"
  then have "FindAllString str = []" using numeric_substring_iff [of str] by blast
  then show "eventStep m ev = Return m"
    by (simp add: eventStep_calculatedCoverage [OF assms])
next
  assume t: "str = ''...running at 12, now 45.5%''"
  have f: "FindAllString ''...running at 12, now 45.5%'' = [''12'', ''45.5'']"
    by (simp add: digit_eval)
  have v: "toFloat ''45.5'' = 91 / 2"
    by code_simp
  show "eventStep m ev = Return (m\<lparr>InitialCoverage := 91 / 2\<rparr>)"
    unfolding eventStep_calculatedCoverage [OF assms] t f by (simp add: v)
qed

theorem calculatedCoverage_last_match_witness:
  "eventStep zeroMetrics
     [''dataType'' \<mapsto> JString ''calculatedCoverage'',
      ''calculatedCoverage'' \<mapsto> JString ''...running at 12, now 45.5%'']
   = Return (zeroMetrics\<lparr>InitialCoverage := 91 / 2\<rparr>)"
  using calculatedCoverage_last_match
    [of "[''dataType'' \<mapsto> JString ''calculatedCoverage'',
          ''calculatedCoverage'' \<mapsto> JString ''...running at 12, now 45.5%'']"
        "''...running at 12, now 45.5%''" zeroMetrics, THEN conjunct2, THEN conjunct2]
  by simp

lemma FindString_digits: "c \<in> set (FindString s) \<Longrightarrow> isDigit c"
  by (auto simp: FindString_def dest: set_takeWhileD)

lemma FindString_Nil_iff: "FindString s = [] \<longleftrightarrow> (\<forall>c \<in> set s. \<not> isDigit c)"
proof
  assume e: "FindString s = []"
  show "\<forall>c \<in> set s. \<not> isDigit c"
  proof (cases "dropWhile (\<lambda>c. \<not> isDigit c) s")
    case Nil
    then show ?thesis by simp
  next
    case (Cons x xs)
    then have "isDigit x" using hd_dropWhile [of "\<lambda>c. \<not> isDigit c" s] by simp
    with e Cons show ?thesis by (simp add: FindString_def)
  qed
next
  assume "\<forall>c \<in> set s. \<not> isDigit c"
  then have "dropWhile (\<lambda>c. \<not> isDigit c) s = []" by simp
  then show "FindString s = []" by (simp add: FindString_def del: dropWhile_eq_Nil_conv)
qed

lemma toFloat_FindString_nonneg: "0 \<le> toFloat (FindString s)"
proof (cases "FindString s")
  case Nil
  then show ?thesis by (simp add: toFloat_def ParseFloat_def)
next
  case (Cons c cs)
  then have "isDigit c" using FindString_digits [of c s] by simp
  with Cons show ?thesis by (simp add: toFloat_nonneg)
qed

lemma toFloat_match_nonneg: "m \<in> set (FindAllString s) \<Longrightarrow> 0 \<le> toFloat m"
proof -
  assume "m \<in> set (FindAllString s)"
  then have "isDecimal m" by (rule FindAllString_decimal)
  then have "takeWhile isDigit m \<noteq> []" by (simp add: isDecimal_def Let_def)
  then obtain c cs where "m = c # cs" "isDigit c"
    by (cases m) (auto split: if_splits)
  then show ?thesis by (simp add: toFloat_nonneg)
qed

lemma sentinel_no_digit: "FindString ''Coverage did not increase'' = []"
  by (simp add: digit_eval)

lemma fieldStep_string:
  "fieldStep (Some (JString s)) cur =
     Return (if FindString s \<noteq> [] then toFloat (FindString s)
             else if s = [] then 0 else cur)"
  by (simp add: fieldStep_def missingOrEmpty_def assertString_def Let_def)

lemma fieldStep_Return:
  "fieldStep v cur = Return x \<Longrightarrow> \<exists>s. v = Some (JString s)"
  by (auto simp: fieldStep_def assertString_def Let_def split: option.splits json.splits)

lemma fieldStep_not_string:
  "(\<forall>s. v \<noteq> Some (JString s)) \<Longrightarrow> fieldStep v cur = Panic"
  by (auto simp: fieldStep_def assertString_def Let_def split: option.splits json.splits)

lemma coverageStep_string:
  "coverageStep (Some (JString s)) i cur =
     Return (if FindString s \<noteq> [] then toFloat (FindString s)
             else if s = ''Coverage did not increase'' then i
             else if s = [] then 0 else cur)"
  by (simp add: coverageStep_def missingOrEmpty_def assertString_def eqString_def Let_def)

lemma coverageStep_Return:
  "coverageStep v i cur = Return x \<Longrightarrow> \<exists>s. v = Some (JString s)"
  by (auto simp: coverageStep_def assertString_def Let_def split: option.splits json.splits)

lemma coverageStep_not_string:
  "(\<forall>s. v \<noteq> Some (JString s)) \<Longrightarrow> coverageStep v i cur = Panic"
  by (auto simp: coverageStep_def assertString_def Let_def split: option.splits json.splits)

lemma summaryStep_strings:
  assumes "ev ''coverageIncreased'' = Some (JString c)"
    and "ev ''linesCovered'' = Some (JString l)"
    and "ev ''totalLines'' = Some (JString t)"
    and "ev ''testAdded'' = Some (JString a)"
  shows "summaryStep m ev =
     Return (m\<lparr>FinalCoverage :=
                  (if FindString c \<noteq> [] then toFloat (FindString c)
                   else if c = ''Coverage did not increase'' then InitialCoverage m
                   else if c = [] then 0 else FinalCoverage m),
               LinesCovered :=
                  (if FindString l \<noteq> [] then toFloat (FindString l)
                   else if l = [] then 0 else LinesCovered m),
               TotalLines :=
                  (if FindString t \<noteq> [] then toFloat (FindString t)
                   else if t = [] then 0 else TotalLines m),
               TestAdded :=
                  (if FindString a \<noteq> [] then toFloat (FindString a)
                   else if a = [] then 0 else TestAdded m)\<rparr>)"
  unfolding summaryStep_def assms coverageStep_string fieldStep_string by simp

lemma summaryStep_Return:
  assumes "summaryStep m ev = Return m'"
  shows "\<exists>c l t a. ev ''coverageIncreased'' = Some (JString c)
      \<and> ev ''linesCovered'' = Some (JString l)
      \<and> ev ''totalLines'' = Some (JString t)
      \<and> ev ''testAdded'' = Some (JString a)"
  using assms
  by (auto simp: summaryStep_def split: outcome.splits
           dest!: coverageStep_Return fieldStep_Return)

lemma eventStep_summary:
  "ev ''dataType'' = Some (JString ''summary'') \<Longrightarrow> eventStep m ev = summaryStep m ev"
  by (simp add: eventStep_def eqString_def)

lemma eventStep_other:
  "\<not> eqString (ev ''dataType'') ''calculatedCoverage'' \<Longrightarrow>
   \<not> eqString (ev ''dataType'') ''summary'' \<Longrightarrow> eventStep m ev = Return m"
  by (simp add: eventStep_def)

lemma decodeLoop_append:
  "decodeLoop m (xs @ ys) =
     (case decodeLoop m xs of Return m' \<Rightarrow> decodeLoop m' ys | Fail e \<Rightarrow> Fail e | Panic \<Rightarrow> Panic)"
  by (induction m xs rule: decodeLoop.induct) (auto split: outcome.splits)

lemma calculatedCoverageStep_fields:
  "calculatedCoverageStep m ev = Return m' \<Longrightarrow>
     FinalCoverage m' = FinalCoverage m \<and> LinesCovered m' = LinesCovered m
     \<and> TotalLines m' = TotalLines m \<and> TestAdded m' = TestAdded m"
  by (auto simp: calculatedCoverageStep_def Let_def split: outcome.splits if_splits)

lemma eventStep_not_summary:
  assumes "\<not> eqString (ev ''dataType'') ''summary''" and "eventStep m ev = Return m'"
  shows "FinalCoverage m' = FinalCoverage m \<and> LinesCovered m' = LinesCovered m
     \<and> TotalLines m' = TotalLines m \<and> TestAdded m' = TestAdded m"
  using assms
  by (auto simp: eventStep_def split: if_splits outcome.splits
           dest: calculatedCoverageStep_fields)

text \<open>
  The carry-forward rule on a \<^verbatim>\<open>summary\<close> event whose four fields are texts. When
  \<^verbatim>\<open>coverageIncreased\<close> is exactly \<^verbatim>\<open>Coverage did not increase\<close>, whatever the other
  three texts, and the loop has accumulated the metrics \<open>m\<close> before the event, the pass
  returns with \<^verbatim>\<open>finalCoverage\<close> equal to the \<^verbatim>\<open>initialCoverage\<close> of \<open>m\<close>, which it
  leaves as it is. After a \<^verbatim>\<open>calculatedCoverage\<close> event that yields 30, followed by such a
  summary, \<^verbatim>\<open>sendRequest\<close> returns initial and final coverage 30.
\<close>

lemma carry_forward_texts:
  assumes "ev ''dataType'' = Some (JString ''summary'')"
    and "ev ''coverageIncreased'' = Some (JString ''Coverage did not increase'')"
    and "ev ''linesCovered'' = Some (JString l)"
    and "ev ''totalLines'' = Some (JString t)"
    and "ev ''testAdded'' = Some (JString a)"
  shows "(\<forall>m0 pre m. decodeLoop m0 pre = Return m \<longrightarrow>
            (\<exists>m'. decodeLoop m0 (pre @ [Event ev]) = Return m'
               \<and> FinalCoverage m' = InitialCoverage m
               \<and> InitialCoverage m' = InitialCoverage m))
       \<and> (\<forall>cc str body.
            cc ''dataType'' = Some (JString ''calculatedCoverage'')
            \<and> cc ''calculatedCoverage'' = Some (JString str)
            \<and> FindAllString str \<noteq> [] \<and> toFloat (last (FindAllString str)) = 30 \<longrightarrow>
            (\<exists>m'. sendRequest (Response 200 body [Event cc, Event ev]) = Return m'
               \<and> InitialCoverage m' = 30 \<and> FinalCoverage m' = 30))"
proof (intro conjI allI impI)
  fix m0 pre m
  assume pre: "decodeLoop m0 pre = Return m"
  have "eventStep m ev = summaryStep m ev"
    using assms(1) by (rule eventStep_summary)
  then have "decodeLoop m0 (pre @ [Event ev]) = summaryStep m ev"
    using pre by (simp add: decodeLoop_append split: outcome.splits)
  then show "\<exists>m'. decodeLoop m0 (pre @ [Event ev]) = Return m'
      \<and> FinalCoverage m' = InitialCoverage m \<and> InitialCoverage m' = InitialCoverage m"
    by (simp add: summaryStep_strings [OF assms(2-5)] sentinel_no_digit)
next
  fix cc str body
  assume c: "cc ''dataType'' = Some (JString ''calculatedCoverage'')
      \<and> cc ''calculatedCoverage'' = Some (JString str)
      \<and> FindAllString str \<noteq> [] \<and> toFloat (last (FindAllString str)) = 30"
  then have "eventStep zeroMetrics cc = Return (zeroMetrics\<lparr>InitialCoverage := 30\<rparr>)"
    by (simp add: eventStep_calculatedCoverage)
  moreover have "eventStep (zeroMetrics\<lparr>InitialCoverage := 30\<rparr>) ev
      = summaryStep (zeroMetrics\<lparr>InitialCoverage := 30\<rparr>) ev"
    using assms(1) by (rule eventStep_summary)
  ultimately show "\<exists>m'. sendRequest (Response 200 body [Event cc, Event ev]) = Return m'
      \<and> InitialCoverage m' = 30 \<and> FinalCoverage m' = 30"
    by (simp add: summaryStep_strings [OF assms(2-5)] sentinel_no_digit)
qed

lemma carry_forward_texts_example:
  "\<exists>m'. sendRequest (Response 200 []
       [Event [''dataType'' \<mapsto> JString ''calculatedCoverage'',
               ''calculatedCoverage'' \<mapsto> JString ''30%''],
        Event [''dataType'' \<mapsto> JString ''summary'',
               ''coverageIncreased'' \<mapsto> JString ''Coverage did not increase'',
               ''linesCovered'' \<mapsto> JString ''12 lines'',
               ''totalLines'' \<mapsto> JString ''40'',
               ''testAdded'' \<mapsto> JString []]]) = Return m'
     \<and> InitialCoverage m' = 30 \<and> FinalCoverage m' = 30"
proof -
  have "FindAllString ''30%'' = [''30'']"
    by (simp add: digit_eval)
  moreover have "toFloat ''30'' = 30"
    by (simp add: toFloat_small_integer digit_eval)
  ultimately have f: "FindAllString ''30%'' \<noteq> [] \<and> toFloat (last (FindAllString ''30%'')) = 30"
    by simp
  have "\<forall>cc str body.
      cc ''dataType'' = Some (JString ''calculatedCoverage'')
      \<and> cc ''calculatedCoverage'' = Some (JString str)
      \<and> FindAllString str \<noteq> [] \<and> toFloat (last (FindAllString str)) = 30 \<longrightarrow>
      (\<exists>m'. sendRequest (Response 200 body
          [Event cc,
           Event [''dataType'' \<mapsto> JString ''summary'',
                  ''coverageIncreased'' \<mapsto> JString ''Coverage did not increase'',
                  ''linesCovered'' \<mapsto> JString ''12 lines'',
                  ''totalLines'' \<mapsto> JString ''40'',
                  ''testAdded'' \<mapsto> JString []]]) = Return m'
         \<and> InitialCoverage m' = 30 \<and> FinalCoverage m' = 30)"
    by (rule carry_forward_texts [THEN conjunct2]) simp_all
  then show ?thesis
    using f by (simp del: FindAllString.simps)
qed

text \<open>
  The order of the events, on a \<^verbatim>\<open>summary\<close> event whose four fields are texts. Two
  \<^verbatim>\<open>calculatedCoverage\<close> events with the texts \<^verbatim>\<open>10%\<close> and \<^verbatim>\<open>20%\<close>, then a
  \<^verbatim>\<open>summary\<close> event whose \<^verbatim>\<open>coverageIncreased\<close> field is \<^verbatim>\<open>5\<close>: \<^verbatim>\<open>sendRequest\<close>
  returns metrics with initial coverage 20 and final coverage 5.
\<close>

lemma ordering_law_texts:
  assumes "e1 ''dataType'' = Some (JString ''calculatedCoverage'')"
    and "e1 ''calculatedCoverage'' = Some (JString ''10%'')"
    and "e2 ''dataType'' = Some (JString ''calculatedCoverage'')"
    and "e2 ''calculatedCoverage'' = Some (JString ''20%'')"
    and "e3 ''dataType'' = Some (JString ''summary'')"
    and "e3 ''coverageIncreased'' = Some (JString ''5'')"
    and "e3 ''linesCovered'' = Some (JString l)"
    and "e3 ''totalLines'' = Some (JString t)"
    and "e3 ''testAdded'' = Some (JString a)"
  shows "\<exists>m. sendRequest (Response 200 body [Event e1, Event e2, Event e3]) = Return m
           \<and> InitialCoverage m = 20 \<and> FinalCoverage m = 5"
proof -
  have n1: "FindAllString ''10%'' = [''10'']" by (simp add: digit_eval)
  have n2: "FindAllString ''20%'' = [''20'']" by (simp add: digit_eval)
  have v1: "toFloat ''10'' = 10" by (simp add: toFloat_small_integer digit_eval)
  have v2: "toFloat ''20'' = 20" by (simp add: toFloat_small_integer digit_eval)
  have f5: "FindString ''5'' = ''5''" by (simp add: digit_eval)
  have v5: "toFloat ''5'' = 5" by (simp add: toFloat_small_integer digit_eval)
  have s1: "eventStep zeroMetrics e1 = Return (zeroMetrics\<lparr>InitialCoverage := 10\<rparr>)"
    unfolding eventStep_calculatedCoverage [OF assms(1,2)] n1 by (simp add: v1)
  have s2: "eventStep (zeroMetrics\<lparr>InitialCoverage := 10\<rparr>) e2
      = Return (zeroMetrics\<lparr>InitialCoverage := 20\<rparr>)"
    unfolding eventStep_calculatedCoverage [OF assms(3,4)] n2 by (simp add: v2)
  have s3: "eventStep (zeroMetrics\<lparr>InitialCoverage := 20\<rparr>) e3
      = summaryStep (zeroMetrics\<lparr>InitialCoverage := 20\<rparr>) e3"
    using assms(5) by (rule eventStep_summary)
  show ?thesis
    by (simp add: s1 s2 s3 summaryStep_strings [OF assms(6-9)] f5 v5)
qed

lemma ordering_law_texts_example:
  "\<exists>m. sendRequest (Response 200 []
       [Event [''dataType'' \<mapsto> JString ''calculatedCoverage'',
               ''calculatedCoverage'' \<mapsto> JString ''10%''],
        Event [''dataType'' \<mapsto> JString ''calculatedCoverage'',
               ''calculatedCoverage'' \<mapsto> JString ''20%''],
        Event [''dataType'' \<mapsto> JString ''summary'',
               ''coverageIncreased'' \<mapsto> JString ''5'',
               ''linesCovered'' \<mapsto> JString ''3'',
               ''totalLines'' \<mapsto> JString ''8'',
               ''testAdded'' \<mapsto> JString ''1'']]) = Return m
     \<and> InitialCoverage m = 20 \<and> FinalCoverage m = 5"
  by (rule ordering_law_texts) simp_all

lemma toFloat_last_nonneg: "FindAllString s \<noteq> [] \<Longrightarrow> 0 \<le> toFloat (last (FindAllString s))"
  by (rule toFloat_match_nonneg [of _ s]) simp

lemma calculatedCoverageStep_nonneg:
  "nonNegative m \<Longrightarrow> calculatedCoverageStep m ev = Return m' \<Longrightarrow> nonNegative m'"
  by (auto simp: calculatedCoverageStep_def nonNegative_def Let_def toFloat_last_nonneg
           split: outcome.splits if_splits)

lemma summaryStep_nonneg:
  assumes "nonNegative m" and "summaryStep m ev = Return m'"
  shows "nonNegative m'"
proof -
  obtain c l t a where s: "ev ''coverageIncreased'' = Some (JString c)"
    "ev ''linesCovered'' = Some (JString l)" "ev ''totalLines'' = Some (JString t)"
    "ev ''testAdded'' = Some (JString a)"
    using summaryStep_Return [OF assms(2)] by blast
  show ?thesis
    using assms unfolding summaryStep_strings [OF s]
    by (auto simp: nonNegative_def toFloat_FindString_nonneg)
qed

lemma eventStep_nonneg:
  "nonNegative m \<Longrightarrow> eventStep m ev = Return m' \<Longrightarrow> nonNegative m'"
  by (auto simp: eventStep_def split: if_splits outcome.splits
           dest: calculatedCoverageStep_nonneg summaryStep_nonneg)

lemma decodeLoop_nonneg:
  "nonNegative m \<Longrightarrow> decodeLoop m evs = Return m' \<Longrightarrow> nonNegative m'"
proof (induction m evs rule: decodeLoop.induct)
  case (1 m)
  then show ?case by simp
next
  case (2 m rest)
  then show ?case by simp
next
  case (3 m ev rest)
  then show ?case
    by (auto split: outcome.splits dest: eventStep_nonneg)
qed

text \<open>
  Claim C10. Every metrics record that \<^verbatim>\<open>sendRequest\<close> returns has its five fields
  non-negative. The conversion itself accepts a sign (\<open>toFloat ''-5''\<close> is \<open>- 5\<close>); the
  values stay non-negative because both patterns match digits and dots only, so every
  converted text starts with a digit.
\<close>

theorem metrics_non_negative:
  "sendRequest x = Return m \<Longrightarrow>
     0 \<le> InitialCoverage m \<and> 0 \<le> FinalCoverage m \<and> 0 \<le> LinesCovered m
     \<and> 0 \<le> TotalLines m \<and> 0 \<le> TestAdded m"
proof -
  assume r: "sendRequest x = Return m"
  have z: "nonNegative zeroMetrics" by (simp add: nonNegative_def zeroMetrics_def)
  have "nonNegative m"
  proof (cases x)
    case (Response status body stream)
    with r have "decodeLoop zeroMetrics stream = Return m" by (simp split: if_splits)
    with z show ?thesis by (rule decodeLoop_nonneg)
  qed (use r in simp_all)
  then show ?thesis by (simp add: nonNegative_def)
qed

theorem metrics_non_negative_witness:
  "sendRequest (Response 200 []
     [Event [''dataType'' \<mapsto> JString ''summary'',
             ''coverageIncreased'' \<mapsto> JString ''-7 points'',
             ''linesCovered'' \<mapsto> JString ''12'',
             ''totalLines'' \<mapsto> JString ''40'',
             ''testAdded'' \<mapsto> JString ''none'']])
   = Return \<lparr>InitialCoverage = 0, FinalCoverage = 7, LinesCovered = 12,
       TotalLines = 40, TestAdded = 0\<rparr>
   \<and> (0::rat) \<le> 7 \<and> (0::rat) \<le> 12 \<and> (0::rat) \<le> 40 \<and> (0::rat) \<le> 0"
proof -
  let ?ev = "[''dataType'' \<mapsto> JString ''summary'',
             ''coverageIncreased'' \<mapsto> JString ''-7 points'',
             ''linesCovered'' \<mapsto> JString ''12'',
             ''totalLines'' \<mapsto> JString ''40'',
             ''testAdded'' \<mapsto> JString ''none'']"
  have fs: "FindString ''-7 points'' = ''7''" "FindString ''12'' = ''12''"
    "FindString ''40'' = ''40''" "FindString ''none'' = []"
    by (simp_all add: digit_eval)
  have vs: "toFloat ''7'' = 7" "toFloat ''12'' = 12" "toFloat ''40'' = 40"
    by (simp_all add: toFloat_small_integer digit_eval)
  have "eventStep zeroMetrics ?ev = summaryStep zeroMetrics ?ev"
    by (rule eventStep_summary) simp
  also have "\<dots> = Return \<lparr>InitialCoverage = 0, FinalCoverage = 7, LinesCovered = 12,
       TotalLines = 40, TestAdded = 0\<rparr>"
    by (subst summaryStep_strings [of _ "''-7 points''" "''12''" "''40''" "''none''"])
       (simp_all add: fs vs zeroMetrics_def)
  finally have h: "sendRequest (Response 200 [] [Event ?ev])
      = Return \<lparr>InitialCoverage = 0, FinalCoverage = 7, LinesCovered = 12,
          TotalLines = 40, TestAdded = 0\<rparr>"
    by simp
  show ?thesis
    using metrics_non_negative [OF h] h by simp
qed

text \<open>
  Claim C1, at a failing input. A stream whose only event is a \<^verbatim>\<open>summary\<close> without the
  \<^verbatim>\<open>linesCovered\<close> field, its other fields being texts: the checked assertion of line 246
  sets the variable to 0, and the unchecked assertion of line 252 on the same absent value
  panics. No metrics are returned.
\<close>

theorem missing_linesCovered_panics:
  "sendRequest (Response 200 []
     [Event [''dataType'' \<mapsto> JString ''summary'',
             ''coverageIncreased'' \<mapsto> JString ''5'',
             ''totalLines'' \<mapsto> JString ''10'',
             ''testAdded'' \<mapsto> JString ''1'']]) = Panic"
  by (simp add: eventStep_def eqString_def summaryStep_def coverageStep_string
      fieldStep_not_string)

text \<open>
  Claim C7, at a failing input. A stream that ends cleanly after one \<^verbatim>\<open>summary\<close> event
  that carries no field but the discriminator: \<^verbatim>\<open>sendRequest\<close> panics at line 238 and
  returns nothing.
\<close>

theorem clean_stream_panics:
  "sendRequest (Response 200 [] [Event [''dataType'' \<mapsto> JString ''summary'']]) = Panic"
  by (simp add: eventStep_def eqString_def summaryStep_def coverageStep_not_string)

lemma settles_string: "settles (Some (JString s)) \<longleftrightarrow> s = [] \<or> FindString s \<noteq> []"
  by (auto simp: settles_def FindString_Nil_iff list_ex_iff)

lemma decodeLoop_no_summary:
  assumes "\<forall>d. Event d \<in> set post \<longrightarrow> \<not> eqString (d ''dataType'') ''summary''"
    and "decodeLoop m post = Return r"
  shows "FinalCoverage r = FinalCoverage m \<and> LinesCovered r = LinesCovered m
     \<and> TotalLines r = TotalLines m \<and> TestAdded r = TestAdded m"
  using assms
proof (induction m post rule: decodeLoop.induct)
  case (1 m)
  then show ?case by simp
next
  case (2 m rest)
  then show ?case by simp
next
  case (3 m ev rest)
  from 3(3) obtain m1 where s: "eventStep m ev = Return m1" and l: "decodeLoop m1 rest = Return r"
    by (auto split: outcome.splits)
  have "\<not> eqString (ev ''dataType'') ''summary''" using 3(2) by simp
  then have a: "FinalCoverage m1 = FinalCoverage m \<and> LinesCovered m1 = LinesCovered m
     \<and> TotalLines m1 = TotalLines m \<and> TestAdded m1 = TestAdded m"
    using s by (rule eventStep_not_summary)
  have "FinalCoverage r = FinalCoverage m1 \<and> LinesCovered r = LinesCovered m1
     \<and> TotalLines r = TotalLines m1 \<and> TestAdded r = TestAdded m1"
    using 3(1) [OF s] 3(2) l by simp
  with a show ?case by simp
qed

text \<open>
  Claim C3, amended. Let a \<^verbatim>\<open>summary\<close> event stand in a stream after which no
  other \<^verbatim>\<open>summary\<close> follows, let \<open>m\<close> be the metrics accumulated before it, and let the
  stream return the metrics \<open>r\<close>. The event alone, applied to fresh values with the
  \<^verbatim>\<open>initialCoverage\<close> of \<open>m\<close>, returns metrics \<open>d\<close>. For each of the four fields, \<open>r\<close>
  has the value of \<open>d\<close> when the text of that field is empty or contains a digit (for
  \<^verbatim>\<open>coverageIncreased\<close> also when it is the sentinel text); a non-empty text without a
  digit leaves the value of \<open>m\<close>, that of the earlier events, in place.
\<close>

theorem last_summary_wins:
  assumes "decodeLoop m0 pre = Return m"
    and "ev ''dataType'' = Some (JString ''summary'')"
    and "\<forall>d. Event d \<in> set post \<longrightarrow> \<not> eqString (d ''dataType'') ''summary''"
    and "decodeLoop m0 (pre @ Event ev # post) = Return r"
  shows "\<exists>d. summaryStep (zeroMetrics\<lparr>InitialCoverage := InitialCoverage m\<rparr>) ev = Return d
     \<and> FinalCoverage r =
         (if settles (ev ''coverageIncreased'')
             \<or> eqString (ev ''coverageIncreased'') ''Coverage did not increase''
          then FinalCoverage d else FinalCoverage m)
     \<and> LinesCovered r = (if settles (ev ''linesCovered'') then LinesCovered d else LinesCovered m)
     \<and> TotalLines r = (if settles (ev ''totalLines'') then TotalLines d else TotalLines m)
     \<and> TestAdded r = (if settles (ev ''testAdded'') then TestAdded d else TestAdded m)"
proof -
  from assms(1,4) have "decodeLoop m (Event ev # post) = Return r"
    by (simp add: decodeLoop_append)
  then obtain m1 where s: "eventStep m ev = Return m1" and l: "decodeLoop m1 post = Return r"
    by (auto split: outcome.splits)
  have "eventStep m ev = summaryStep m ev"
    using assms(2) by (rule eventStep_summary)
  with s have s1: "summaryStep m ev = Return m1"
    by simp
  then obtain c l t a where f: "ev ''coverageIncreased'' = Some (JString c)"
    "ev ''linesCovered'' = Some (JString l)" "ev ''totalLines'' = Some (JString t)"
    "ev ''testAdded'' = Some (JString a)"
    using summaryStep_Return by blast
  have r: "FinalCoverage r = FinalCoverage m1 \<and> LinesCovered r = LinesCovered m1
     \<and> TotalLines r = TotalLines m1 \<and> TestAdded r = TestAdded m1"
    using assms(3) l by (rule decodeLoop_no_summary)
  define F where "F cur =
     (if FindString c \<noteq> [] then toFloat (FindString c)
      else if c = ''Coverage did not increase'' then InitialCoverage m
      else if c = [] then 0 else cur)" for cur
  define G where "G s cur =
     (if FindString s \<noteq> [] then toFloat (FindString s)
      else if s = [] then 0 else cur)" for s cur
  let ?fresh = "zeroMetrics\<lparr>InitialCoverage := InitialCoverage m\<rparr>"
  let ?d = "?fresh\<lparr>FinalCoverage := F 0, LinesCovered := G l 0,
     TotalLines := G t 0, TestAdded := G a 0\<rparr>"
  have m1: "m1 = m\<lparr>FinalCoverage := F (FinalCoverage m), LinesCovered := G l (LinesCovered m),
     TotalLines := G t (TotalLines m), TestAdded := G a (TestAdded m)\<rparr>"
    using s1 unfolding summaryStep_strings [OF f] F_def G_def
    by (simp split del: if_split)
  have d: "summaryStep ?fresh ev = Return ?d"
    unfolding summaryStep_strings [OF f] F_def G_def
    by (simp add: zeroMetrics_def split del: if_split cong: if_cong)
  have gF: "F x = (if settles (Some (JString c)) \<or> c = ''Coverage did not increase''
      then F 0 else x)" for x
    by (auto simp: F_def settles_string)
  have gG: "G s x = (if settles (Some (JString s)) then G s 0 else x)" for s x
    by (auto simp: G_def settles_string)
  have "FinalCoverage r =
         (if settles (ev ''coverageIncreased'')
             \<or> eqString (ev ''coverageIncreased'') ''Coverage did not increase''
          then FinalCoverage ?d else FinalCoverage m)"
    using r gF [of "FinalCoverage m"] by (simp add: m1 f eqString_def split del: if_split cong: if_cong)
  moreover have "LinesCovered r =
      (if settles (ev ''linesCovered'') then LinesCovered ?d else LinesCovered m)"
    using r gG [of l "LinesCovered m"] by (simp add: m1 f split del: if_split cong: if_cong)
  moreover have "TotalLines r =
      (if settles (ev ''totalLines'') then TotalLines ?d else TotalLines m)"
    using r gG [of t "TotalLines m"] by (simp add: m1 f split del: if_split cong: if_cong)
  moreover have "TestAdded r =
      (if settles (ev ''testAdded'') then TestAdded ?d else TestAdded m)"
    using r gG [of a "TestAdded m"] by (simp add: m1 f split del: if_split cong: if_cong)
  ultimately show ?thesis
    using d by blast
qed

lemma eventStep_textFields: "textFields ev \<Longrightarrow> \<exists>m'. eventStep m ev = Return m'"
proof -
  assume t: "textFields ev"
  show ?thesis
  proof (cases "eqString (ev ''dataType'') ''calculatedCoverage''")
    case True
    with t obtain s where "ev ''calculatedCoverage'' = Some (JString s)"
      by (auto simp: textFields_def split: option.splits json.splits)
    with True show ?thesis
      by (simp add: eventStep_calculatedCoverage eqString_def)
  next
    case notcc: False
    show ?thesis
    proof (cases "eqString (ev ''dataType'') ''summary''")
      case True
      with t obtain c l t a where f: "ev ''coverageIncreased'' = Some (JString c)"
        "ev ''linesCovered'' = Some (JString l)" "ev ''totalLines'' = Some (JString t)"
        "ev ''testAdded'' = Some (JString a)"
        by (auto simp: textFields_def split: option.splits json.splits)
      have "eventStep m ev = summaryStep m ev"
        using True by (simp add: eventStep_summary eqString_def)
      then show ?thesis by (simp add: summaryStep_strings [OF f])
    next
      case False
      with notcc show ?thesis by (simp add: eventStep_other)
    qed
  qed
qed

text \<open>
  The loop returns metrics for every stream that ends cleanly and whose recognised events
  carry texts in the fields that are read.
\<close>

lemma decodeLoop_returns:
  "\<forall>x \<in> set evs. \<exists>ev. x = Event ev \<and> textFields ev \<Longrightarrow> \<exists>m'. decodeLoop m evs = Return m'"
proof (induction evs arbitrary: m)
  case Nil
  then show ?case by simp
next
  case (Cons x evs)
  then obtain ev where x: "x = Event ev" and t: "textFields ev" by auto
  from t obtain m1 where "eventStep m ev = Return m1"
    using eventStep_textFields by blast
  moreover obtain m' where "decodeLoop m1 evs = Return m'"
    using Cons by fastforce
  ultimately show ?case using x by simp
qed

text \<open>
  An event whose discriminator is neither of the two recognised texts changes nothing, and
  a stream of such events gives the metrics that are all zero.
\<close>

lemma decodeLoop_unrecognised:
  "\<forall>x \<in> set evs. \<exists>ev. x = Event ev \<and> \<not> eqString (ev ''dataType'') ''calculatedCoverage''
       \<and> \<not> eqString (ev ''dataType'') ''summary'' \<Longrightarrow>
   decodeLoop m evs = Return m"
  by (induction evs) (auto simp: eventStep_other)

lemma sendRequest_unrecognised:
  "\<forall>x \<in> set evs. \<exists>ev. x = Event ev \<and> \<not> eqString (ev ''dataType'') ''calculatedCoverage''
       \<and> \<not> eqString (ev ''dataType'') ''summary'' \<Longrightarrow>
   sendRequest (Response 200 body evs) = Return zeroMetrics"
  by (simp add: decodeLoop_unrecognised)

theorem last_summary_wins_witness:
  "\<exists>d. summaryStep (zeroMetrics\<lparr>InitialCoverage :=
            InitialCoverage \<lparr>InitialCoverage = 0, FinalCoverage = 5, LinesCovered = 7,
              TotalLines = 9, TestAdded = 2\<rparr>\<rparr>)
          [''dataType'' \<mapsto> JString ''summary'', ''coverageIncreased'' \<mapsto> JString ''6'',
           ''linesCovered'' \<mapsto> JString ''none'', ''totalLines'' \<mapsto> JString ''10'',
           ''testAdded'' \<mapsto> JString []] = Return d
     \<and> FinalCoverage \<lparr>InitialCoverage = 0, FinalCoverage = 6, LinesCovered = 7,
              TotalLines = 10, TestAdded = 0\<rparr> = FinalCoverage d
     \<and> LinesCovered \<lparr>InitialCoverage = 0, FinalCoverage = 6, LinesCovered = 7,
              TotalLines = 10, TestAdded = 0\<rparr> = 7
     \<and> TotalLines \<lparr>InitialCoverage = 0, FinalCoverage = 6, LinesCovered = 7,
              TotalLines = 10, TestAdded = 0\<rparr> = TotalLines d
     \<and> TestAdded \<lparr>InitialCoverage = 0, FinalCoverage = 6, LinesCovered = 7,
              TotalLines = 10, TestAdded = 0\<rparr> = TestAdded d"
proof -
  let ?s1 = "[''dataType'' \<mapsto> JString ''summary'', ''coverageIncreased'' \<mapsto> JString ''5'',
           ''linesCovered'' \<mapsto> JString ''7'', ''totalLines'' \<mapsto> JString ''9'',
           ''testAdded'' \<mapsto> JString ''2'']"
  let ?s2 = "[''dataType'' \<mapsto> JString ''summary'', ''coverageIncreased'' \<mapsto> JString ''6'',
           ''linesCovered'' \<mapsto> JString ''none'', ''totalLines'' \<mapsto> JString ''10'',
           ''testAdded'' \<mapsto> JString []]"
  let ?o = "[''dataType'' \<mapsto> JString ''progress'']"
  let ?m = "\<lparr>InitialCoverage = 0, FinalCoverage = 5, LinesCovered = 7,
              TotalLines = 9, TestAdded = 2\<rparr>"
  let ?r = "\<lparr>InitialCoverage = 0, FinalCoverage = 6, LinesCovered = 7,
              TotalLines = 10, TestAdded = 0\<rparr>"
  have fs: "FindString ''5'' = ''5''" "FindString ''7'' = ''7''" "FindString ''9'' = ''9''"
    "FindString ''2'' = ''2''" "FindString ''6'' = ''6''" "FindString ''none'' = []"
    "FindString ''10'' = ''10''" "FindString [] = []"
    by (simp_all add: digit_eval)
  have vs: "toFloat ''5'' = 5" "toFloat ''7'' = 7" "toFloat ''9'' = 9" "toFloat ''2'' = 2"
    "toFloat ''6'' = 6" "toFloat ''10'' = 10"
    by (simp_all add: toFloat_small_integer digit_eval)
  have e1: "eventStep zeroMetrics ?s1 = Return ?m"
    by (subst eventStep_summary, simp,
        subst summaryStep_strings [of _ "''5''" "''7''" "''9''" "''2''"])
       (simp_all add: fs vs zeroMetrics_def)
  have e2: "eventStep ?m ?s2 = Return ?r"
    by (subst eventStep_summary, simp,
        subst summaryStep_strings [of _ "''6''" "''none''" "''10''" "[]"])
       (simp_all add: fs vs)
  have e3: "eventStep ?r ?o = Return ?r"
    by (rule eventStep_other) (simp_all add: eqString_def)
  have h1: "decodeLoop zeroMetrics [Event ?s1] = Return ?m"
    by (simp add: e1)
  have h2: "?s2 ''dataType'' = Some (JString ''summary'')"
    by simp
  have h3: "\<forall>d. Event d \<in> set [Event ?o] \<longrightarrow> \<not> eqString (d ''dataType'') ''summary''"
    by (simp add: eqString_def)
  have h4: "decodeLoop zeroMetrics ([Event ?s1] @ Event ?s2 # [Event ?o]) = Return ?r"
    by (simp add: e1 e2 e3)
  have s: "settles (?s2 ''coverageIncreased'')" "\<not> settles (?s2 ''linesCovered'')"
    "settles (?s2 ''totalLines'')" "settles (?s2 ''testAdded'')"
    by (simp_all add: settles_def isDigit_def)
  show ?thesis
    using last_summary_wins [OF h1 h2 h3 h4] s by (simp del: fun_upd_apply)
qed

text \<open>
  Claim C3, as stated, fails. Two \<^verbatim>\<open>summary\<close> events, the second with the text
  \<^verbatim>\<open>none\<close> in \<^verbatim>\<open>linesCovered\<close>: the stream returns \<^verbatim>\<open>linesCovered\<close> 7, the value of
  the first summary, whereas the second summary alone returns 0.
\<close>

theorem last_summary_counterexample:
  "sendRequest (Response 200 []
     [Event [''dataType'' \<mapsto> JString ''summary'', ''coverageIncreased'' \<mapsto> JString ''5'',
             ''linesCovered'' \<mapsto> JString ''7'', ''totalLines'' \<mapsto> JString ''9'',
             ''testAdded'' \<mapsto> JString ''2''],
      Event [''dataType'' \<mapsto> JString ''summary'', ''coverageIncreased'' \<mapsto> JString ''6'',
             ''linesCovered'' \<mapsto> JString ''none'', ''totalLines'' \<mapsto> JString ''10'',
             ''testAdded'' \<mapsto> JString ''3'']])
   = Return \<lparr>InitialCoverage = 0, FinalCoverage = 6, LinesCovered = 7,
        TotalLines = 10, TestAdded = 3\<rparr>
   \<and> sendRequest (Response 200 []
     [Event [''dataType'' \<mapsto> JString ''summary'', ''coverageIncreased'' \<mapsto> JString ''6'',
             ''linesCovered'' \<mapsto> JString ''none'', ''totalLines'' \<mapsto> JString ''10'',
             ''testAdded'' \<mapsto> JString ''3'']])
   = Return \<lparr>InitialCoverage = 0, FinalCoverage = 6, LinesCovered = 0,
        TotalLines = 10, TestAdded = 3\<rparr>"
proof -
  let ?s1 = "[''dataType'' \<mapsto> JString ''summary'', ''coverageIncreased'' \<mapsto> JString ''5'',
           ''linesCovered'' \<mapsto> JString ''7'', ''totalLines'' \<mapsto> JString ''9'',
           ''testAdded'' \<mapsto> JString ''2'']"
  let ?s2 = "[''dataType'' \<mapsto> JString ''summary'', ''coverageIncreased'' \<mapsto> JString ''6'',
           ''linesCovered'' \<mapsto> JString ''none'', ''totalLines'' \<mapsto> JString ''10'',
           ''testAdded'' \<mapsto> JString ''3'']"
  let ?m = "\<lparr>InitialCoverage = 0, FinalCoverage = 5, LinesCovered = 7,
              TotalLines = 9, TestAdded = 2\<rparr>"
  have fs: "FindString ''5'' = ''5''" "FindString ''7'' = ''7''" "FindString ''9'' = ''9''"
    "FindString ''2'' = ''2''" "FindString ''6'' = ''6''" "FindString ''none'' = []"
    "FindString ''10'' = ''10''" "FindString ''3'' = ''3''"
    by (simp_all add: digit_eval)
  have vs: "toFloat ''5'' = 5" "toFloat ''7'' = 7" "toFloat ''9'' = 9" "toFloat ''2'' = 2"
    "toFloat ''6'' = 6" "toFloat ''10'' = 10" "toFloat ''3'' = 3"
    by (simp_all add: toFloat_small_integer digit_eval)
  have e1: "eventStep zeroMetrics ?s1 = Return ?m"
    by (subst eventStep_summary, simp,
        subst summaryStep_strings [of _ "''5''" "''7''" "''9''" "''2''"])
       (simp_all add: fs vs zeroMetrics_def)
  have e2: "eventStep ?m ?s2 = Return \<lparr>InitialCoverage = 0, FinalCoverage = 6,
      LinesCovered = 7, TotalLines = 10, TestAdded = 3\<rparr>"
    by (subst eventStep_summary, simp,
        subst summaryStep_strings [of _ "''6''" "''none''" "''10''" "''3''"])
       (simp_all add: fs vs)
  have e3: "eventStep zeroMetrics ?s2 = Return \<lparr>InitialCoverage = 0, FinalCoverage = 6,
      LinesCovered = 0, TotalLines = 10, TestAdded = 3\<rparr>"
    by (subst eventStep_summary, simp,
        subst summaryStep_strings [of _ "''6''" "''none''" "''10''" "''3''"])
       (simp_all add: fs vs zeroMetrics_def)
  show ?thesis
    by (simp add: e1 e2 e3)
qed

section \<open>Properties of the enumerator\<close>

lemma hasPrefix_iff: "hasPrefix s p \<longleftrightarrow> (\<exists>v. s = p @ v)"
  by (induction s p rule: hasPrefix.induct) auto

lemma Contains_iff: "Contains s substr \<longleftrightarrow> (\<exists>u v. s = u @ substr @ v)"
proof (induction s)
  case Nil
  then show ?case by auto
next
  case (Cons c cs)
  show ?case
  proof
    assume "Contains (c # cs) substr"
    then consider "hasPrefix (c # cs) substr" | "Contains cs substr" by auto
    then show "\<exists>u v. c # cs = u @ substr @ v"
    proof cases
      case 1
      then obtain v where "c # cs = [] @ substr @ v" by (auto simp: hasPrefix_iff)
      then show ?thesis by blast
    next
      case 2
      then obtain u v where "cs = u @ substr @ v" using Cons by auto
      then have "c # cs = (c # u) @ substr @ v" by simp
      then show ?thesis by blast
    qed
  next
    assume "\<exists>u v. c # cs = u @ substr @ v"
    then obtain u v where e: "c # cs = u @ substr @ v" by blast
    show "Contains (c # cs) substr"
    proof (cases u)
      case Nil
      with e have "hasPrefix (c # cs) substr" by (auto simp: hasPrefix_iff)
      then show ?thesis by simp
    next
      case (Cons x u')
      with e have "cs = u' @ substr @ v" by simp
      then have "Contains cs substr" using Cons.IH by blast
      then show ?thesis by simp
    qed
  qed
qed

lemma Contains_Join: "Contains dir substr \<Longrightarrow> Contains (Join dir name) substr"
proof -
  assume "Contains dir substr"
  then obtain u v where d: "dir = u @ substr @ v" by (auto simp: Contains_iff)
  have "\<exists>rest. Join dir name = dir @ rest" by (simp add: Join_def)
  then obtain rest where "Join dir name = dir @ rest" by blast
  with d have "Join dir name = u @ substr @ (v @ rest)" by simp
  then show ?thesis unfolding Contains_iff by blast
qed

text \<open>Below a path that contains \<^verbatim>\<open>test_\<close> the walk adds nothing.\<close>

lemma walk_under_test:
  "Contains path ''test_'' \<Longrightarrow> snd (walk goFiles path node) = goFiles"
  "Contains path ''test_'' \<Longrightarrow> snd (walkEntries goFiles path entries) = goFiles"
proof (induction goFiles path node and goFiles path entries rule: walk_walkEntries.induct)
  case (1 goFiles path n)
  then show ?case by (simp add: isTestFile_def)
next
  case (2 goFiles path n)
  then show ?case by simp
next
  case (3 goFiles path n)
  then show ?case by simp
next
  case (4 goFiles path n entries)
  then show ?case by (auto split: prod.splits walkResult.splits if_splits)
next
  case (5 goFiles path)
  then show ?case by simp
next
  case (6 goFiles path e es)
  have j: "Contains (Join path (nodeName e)) ''test_''"
    using 6(4) by (rule Contains_Join)
  obtain r g where w: "walk goFiles (Join path (nodeName e)) e = (r, g)"
    by (cases "walk goFiles (Join path (nodeName e)) e")
  have g: "g = goFiles" using 6(1) [OF j] w by simp
  show ?case
  proof (cases r)
    case WalkNil
    have "snd (walkEntries g path es) = g"
      using w [symmetric] WalkNil 6(4) by (rule 6(2))
    with WalkNil w g show ?thesis by simp
  next
    case SkipDir
    show ?thesis
    proof (cases "isDir e")
      case True
      have "snd (walkEntries g path es) = g"
        using w [symmetric] SkipDir True 6(4) by (rule 6(3))
      with SkipDir True w g show ?thesis by simp
    next
      case False
      with SkipDir w g show ?thesis by simp
    qed
  next
    case WalkError
    with w g show ?thesis by simp
  qed
qed

text \<open>Every path that the walk adds passed these tests.\<close>

lemma walk_accepted:
  "\<forall>p \<in> set goFiles. accepted p \<Longrightarrow> \<forall>p \<in> set (snd (walk goFiles path node)). accepted p"
  "\<forall>p \<in> set goFiles. accepted p \<Longrightarrow> \<forall>p \<in> set (snd (walkEntries goFiles path entries)). accepted p"
proof (induction goFiles path node and goFiles path entries rule: walk_walkEntries.induct)
  case (1 goFiles path n)
  then show ?case by (simp add: accepted_def)
next
  case (2 goFiles path n)
  then show ?case by simp
next
  case (3 goFiles path n)
  then show ?case by simp
next
  case (4 goFiles path n entries)
  then show ?case by (auto split: prod.splits walkResult.splits if_splits)
next
  case (5 goFiles path)
  then show ?case by simp
next
  case (6 goFiles path e es)
  obtain r g where w: "walk goFiles (Join path (nodeName e)) e = (r, g)"
    by (cases "walk goFiles (Join path (nodeName e)) e")
  have g: "\<forall>p \<in> set g. accepted p" using 6(1) [OF 6(4)] w by simp
  show ?case
  proof (cases r)
    case WalkNil
    have "\<forall>p \<in> set (snd (walkEntries g path es)). accepted p"
      using w [symmetric] WalkNil g by (rule 6(2))
    with WalkNil w show ?thesis by simp
  next
    case SkipDir
    show ?thesis
    proof (cases "isDir e")
      case True
      have "\<forall>p \<in> set (snd (walkEntries g path es)). accepted p"
        using w [symmetric] SkipDir True g by (rule 6(3))
      with SkipDir True w show ?thesis by simp
    next
      case False
      with SkipDir w g show ?thesis by simp
    qed
  next
    case WalkError
    with w g show ?thesis by simp
  qed
qed

lemma Walk_accepted: "Walk rootDir tree = Some goFiles \<Longrightarrow> \<forall>p \<in> set goFiles. accepted p"
proof -
  assume a: "Walk rootDir tree = Some goFiles"
  have "\<forall>p \<in> set (snd (walk [] rootDir tree)). accepted p"
    by (rule walk_accepted) simp
  moreover have "snd (walk [] rootDir tree) = goFiles"
    using a by (auto simp: Walk_def split: prod.splits walkResult.splits)
  ultimately show ?thesis by simp
qed

section \<open>Properties of the batch driver\<close>

lemma mainLoop_append:
  "mainLoop w st (xs @ ys) =
     (case mainLoop w st xs of None \<Rightarrow> None | Some st' \<Rightarrow> mainLoop w st' ys)"
  by (induction xs arbitrary: st) (auto split: option.splits)

lemma measureDuration_dispatch:
  "dispatched (snd (measureDuration w st file)) = dispatched st @ [(file, clock w (ticks st))]"
  by (simp add: measureDuration_def Let_def split: outcome.splits)

lemma processFile_Fail:
  "sendRequest (service w (length (dispatched st)) file) = Fail e \<Longrightarrow>
   processFile w st file =
     Some (st\<lparr>ticks := ticks st + 1,
              dispatched := dispatched st @ [(file, clock w (ticks st))]\<rparr>)"
  by (simp add: processFile_def measureDuration_def Let_def)

lemma processFile_Panic:
  "sendRequest (service w (length (dispatched st)) file) = Panic \<Longrightarrow>
   processFile w st file = None"
  by (simp add: processFile_def measureDuration_def Let_def)

lemma processFile_Return:
  "sendRequest (service w (length (dispatched st)) file) = Return m \<Longrightarrow>
   processFile w st file =
     Some (st\<lparr>ticks := ticks st + 2,
              dispatched := dispatched st @ [(file, clock w (ticks st))],
              workbook := (workbook st)(row st \<mapsto>
                \<lparr>relativeName = (case rel w file of None \<Rightarrow> file | Some r \<Rightarrow> r),
                 metrics = m,
                 duration = clock w (ticks st + 1) - clock w (ticks st),
                 startTime = clock w (ticks st),
                 endTime = clock w (ticks st + 1)\<rparr>),
              stored :=
                (if saveSucceeds w (row st)
                 then Some ((workbook st)(row st \<mapsto>
                   \<lparr>relativeName = (case rel w file of None \<Rightarrow> file | Some r \<Rightarrow> r),
                    metrics = m,
                    duration = clock w (ticks st + 1) - clock w (ticks st),
                    startTime = clock w (ticks st),
                    endTime = clock w (ticks st + 1)\<rparr>))
                 else failedSave w (row st) (stored st)),
              row := row st + 1\<rparr>)"
  by (simp add: processFile_def measureDuration_def Let_def)

lemma processFile_None_iff:
  "processFile w st file = None \<longleftrightarrow>
     sendRequest (service w (length (dispatched st)) file) = Panic"
  by (cases "sendRequest (service w (length (dispatched st)) file)")
     (simp_all add: processFile_Return processFile_Fail processFile_Panic)

lemma processFile_dispatched:
  "processFile w st file = Some st' \<Longrightarrow>
     dispatched st' = dispatched st @ [(file, clock w (ticks st))]"
  by (cases "sendRequest (service w (length (dispatched st)) file)")
     (auto simp: processFile_Return processFile_Fail processFile_Panic)

lemma mainLoop_dispatched:
  "mainLoop w st files = Some st' \<Longrightarrow>
     map fst (dispatched st') = map fst (dispatched st) @ files"
proof (induction files arbitrary: st)
  case Nil
  then show ?case by simp
next
  case (Cons f files)
  then obtain st1 where p: "processFile w st f = Some st1" and l: "mainLoop w st1 files = Some st'"
    by (auto split: option.splits)
  from p have "dispatched st1 = dispatched st @ [(f, clock w (ticks st))]"
    by (rule processFile_dispatched)
  with Cons.IH [OF l] show ?case by simp
qed

lemma mainLoop_no_panic:
  "\<forall>n f. sendRequest (service w n f) \<noteq> Panic \<Longrightarrow> \<exists>st'. mainLoop w st files = Some st'"
proof (induction files arbitrary: st)
  case Nil
  then show ?case by simp
next
  case (Cons f files)
  then have "processFile w st f \<noteq> None" by (simp add: processFile_None_iff)
  then obtain st1 where "processFile w st f = Some st1" by blast
  with Cons show ?case by simp
qed

lemma processFile_inv:
  assumes "driverInv w n st" and "processFile w st file = Some st'"
  shows "driverInv w (Suc n) st'"
proof (cases "sendRequest (service w (length (dispatched st)) file)")
  case (Return m)
  define data where "data =
     \<lparr>relativeName = (case rel w file of None \<Rightarrow> file | Some r \<Rightarrow> r),
      metrics = m,
      duration = clock w (ticks st + 1) - clock w (ticks st),
      startTime = clock w (ticks st),
      endTime = clock w (ticks st + 1)\<rparr>"
  have st': "row st' = row st + 1" "workbook st' = (workbook st)(row st \<mapsto> data)"
    "dispatched st' = dispatched st @ [(file, clock w (ticks st))]"
    "stored st' = (if saveSucceeds w (row st) then Some ((workbook st)(row st \<mapsto> data))
                   else failedSave w (row st) (stored st))"
    using assms(2) unfolding processFile_Return [OF Return] data_def by auto
  have r: "2 \<le> row st" "row st - 2 \<le> n" "dom (workbook st) = {2..<row st}"
    "length (dispatched st) = n"
    using assms(1) by (simp_all add: driverInv_def)
  have "dom (workbook st') = insert (row st) {2..<row st}"
    by (simp add: st' r)
  also have "\<dots> = {2..<row st'}"
    using r(1) by (auto simp: st')
  finally have d: "dom (workbook st') = {2..<row st'}" .
  have s: "saveSucceeds w (row st' - 1) \<longrightarrow> stored st' = Some (workbook st')"
    by (simp add: st')
  show ?thesis
    using r d s by (simp add: driverInv_def st'(1,3))
next
  case (Fail e)
  have "st' = st\<lparr>ticks := ticks st + 1,
      dispatched := dispatched st @ [(file, clock w (ticks st))]\<rparr>"
    using assms(2) unfolding processFile_Fail [OF Fail] by simp
  then show ?thesis
    using assms(1) by (simp add: driverInv_def)
next
  case Panic
  with assms(2) show ?thesis by (simp add: processFile_Panic)
qed

lemma mainLoop_inv:
  "driverInv w n st \<Longrightarrow> mainLoop w st files = Some st' \<Longrightarrow>
     driverInv w (n + length files) st'"
proof (induction files arbitrary: st n)
  case Nil
  then show ?case by simp
next
  case (Cons f files)
  then obtain st1 where p: "processFile w st f = Some st1" and l: "mainLoop w st1 files = Some st'"
    by (auto split: option.splits)
  have "driverInv w (Suc n) st1" using Cons.prems(1) p by (rule processFile_inv)
  then have "driverInv w (Suc n + length files) st'" using l by (rule Cons.IH)
  then show ?case by simp
qed

lemma initialDriver_inv: "driverInv w 0 initialDriver"
  by (simp add: driverInv_def initialDriver_def)

text \<open>
  Claim C9. The exclusion of test files looks for \<^verbatim>\<open>test_\<close> anywhere in the whole path.
  So no path that the walk returns contains \<^verbatim>\<open>test_\<close>; a path that contains it,
  be it in the name of a directory above the file, is a test file for \<^verbatim>\<open>isTestFile\<close>,
  and the walk of anything at such a path adds no file at all; and no request of a
  completed run is for a path that contains \<^verbatim>\<open>test_\<close>.
\<close>

theorem test_prefix_overmatch:
  "(Walk rootDir tree = Some goFiles \<longrightarrow>
      (\<forall>p \<in> set goFiles. \<not> (\<exists>u v. p = u @ ''test_'' @ v)))
   \<and> ((\<exists>u v. path = u @ ''test_'' @ v) \<longrightarrow>
        isTestFile path \<and> snd (walk acc path node) = acc)
   \<and> (main w (Some rootDir) tree = Completed st \<longrightarrow>
        (\<forall>p \<in> set (map fst (dispatched st)). \<not> (\<exists>u v. p = u @ ''test_'' @ v)))"
proof (intro conjI impI)
  assume "Walk rootDir tree = Some goFiles"
  then have "\<forall>p \<in> set goFiles. accepted p" by (rule Walk_accepted)
  then show "\<forall>p \<in> set goFiles. \<not> (\<exists>u v. p = u @ ''test_'' @ v)"
    by (simp add: accepted_def isTestFile_def Contains_iff)
next
  assume "\<exists>u v. path = u @ ''test_'' @ v"
  then have c: "Contains path ''test_''" by (simp only: Contains_iff)
  then show "isTestFile path" by (simp add: isTestFile_def)
  from c show "snd (walk acc path node) = acc" by (rule walk_under_test(1))
next
  assume m: "main w (Some rootDir) tree = Completed st"
  then obtain goFiles where g: "Walk rootDir tree = Some goFiles"
    and l: "mainLoop w initialDriver goFiles = Some st"
    by (auto simp: main_def split: option.splits)
  from g have "\<forall>p \<in> set goFiles. accepted p" by (rule Walk_accepted)
  moreover have "map fst (dispatched st) = goFiles"
    using mainLoop_dispatched [OF l] by (simp add: initialDriver_def)
  ultimately show "\<forall>p \<in> set (map fst (dispatched st)). \<not> (\<exists>u v. p = u @ ''test_'' @ v)"
    by (simp add: accepted_def isTestFile_def Contains_iff)
qed

theorem test_prefix_overmatch_witness:
  "Walk ''/w/proj''
     (Dir ''proj''
        [File ''a.py'',
         Dir ''test_data'' [File ''loader.py''],
         File ''test_a.py'',
         File ''__init__.py'',
         Dir ''venv'' [File ''x.py'']]) = Some [''/w/proj/a.py'']
   \<and> \<not> (\<exists>u v. ''/w/proj/a.py'' = u @ ''test_'' @ v)
   \<and> isTestFile ''/w/proj/test_data/loader.py''
   \<and> snd (walk [] ''/w/proj/test_data/loader.py'' (File ''loader.py'')) = []"
proof -
  have h: "Walk ''/w/proj''
     (Dir ''proj''
        [File ''a.py'',
         Dir ''test_data'' [File ''loader.py''],
         File ''test_a.py'',
         File ''__init__.py'',
         Dir ''venv'' [File ''x.py'']]) = Some [''/w/proj/a.py'']"
    by (simp add: Walk_def Join_def Ext_def isTestFile_def)
  have e: "\<exists>u v. ''/w/proj/test_data/loader.py'' = u @ ''test_'' @ v"
    using Contains_iff [of "''/w/proj/test_data/loader.py''" "''test_''"] by simp
  show ?thesis
    using test_prefix_overmatch [THEN conjunct1, rule_format, OF h]
      test_prefix_overmatch [THEN conjunct2, THEN conjunct1, rule_format, OF e] h
    by simp
qed

text \<open>
  An error that \<^verbatim>\<open>sendRequest\<close> returns stays with its file. Let the loop have reached
  the state \<open>st\<close> after the files \<open>pre\<close>, and let \<^verbatim>\<open>sendRequest\<close> return an error for
  the next file \<open>k\<close>. Then the pass for \<open>k\<close> ends normally, it writes no record
  (workbook, \<^verbatim>\<open>row\<close> and stored file are as before), the loop goes on with the files
  after \<open>k\<close>, and the request for the file that follows carries as start time the reading
  of the clock that follows the one taken for \<open>k\<close>. In a run where no request panics, the
  loop reaches the end of the list and has sent one request for every file, in order,
  however many of them returned an error.
\<close>

lemma returned_error_isolated:
  assumes "mainLoop w initialDriver pre = Some st"
    and "sendRequest (service w (length (dispatched st)) k) = Fail e"
  shows "(\<exists>st'. processFile w st k = Some st'
            \<and> workbook st' = workbook st \<and> row st' = row st \<and> stored st' = stored st
            \<and> mainLoop w initialDriver (pre @ k # rest) = mainLoop w st' rest
            \<and> (\<forall>nx. dispatched (snd (measureDuration w st' nx)) =
                  dispatched st @ [(k, clock w (ticks st)), (nx, clock w (ticks st + 1))]))
       \<and> ((\<forall>n f. sendRequest (service w n f) \<noteq> Panic) \<longrightarrow>
            (\<exists>fin. mainLoop w initialDriver files = Some fin
                \<and> map fst (dispatched fin) = files))
       \<and> ((\<forall>n f. sendRequest (service w n f) \<noteq> Panic)
            \<and> Walk rootDir tree = Some files \<longrightarrow>
            (\<exists>fin. main w (Some rootDir) tree = Completed fin
                \<and> map fst (dispatched fin) = files))"
proof (intro conjI impI)
  let ?st' = "st\<lparr>ticks := ticks st + 1,
      dispatched := dispatched st @ [(k, clock w (ticks st))]\<rparr>"
  have p: "processFile w st k = Some ?st'"
    using assms(2) by (rule processFile_Fail)
  have "mainLoop w initialDriver (pre @ k # rest) = mainLoop w ?st' rest"
    using assms(1) p by (simp add: mainLoop_append)
  moreover have "\<forall>nx. dispatched (snd (measureDuration w ?st' nx)) =
      dispatched st @ [(k, clock w (ticks st)), (nx, clock w (ticks st + 1))]"
    by (simp add: measureDuration_dispatch)
  ultimately show "\<exists>st'. processFile w st k = Some st'
      \<and> workbook st' = workbook st \<and> row st' = row st \<and> stored st' = stored st
      \<and> mainLoop w initialDriver (pre @ k # rest) = mainLoop w st' rest
      \<and> (\<forall>nx. dispatched (snd (measureDuration w st' nx)) =
            dispatched st @ [(k, clock w (ticks st)), (nx, clock w (ticks st + 1))])"
    using p by simp
next
  assume np: "\<forall>n f. sendRequest (service w n f) \<noteq> Panic"
  then obtain fin where l: "mainLoop w initialDriver files = Some fin"
    using mainLoop_no_panic by blast
  then have "map fst (dispatched fin) = files"
    using mainLoop_dispatched [OF l] by (simp add: initialDriver_def)
  with l show "\<exists>fin. mainLoop w initialDriver files = Some fin
      \<and> map fst (dispatched fin) = files"
    by blast
next
  assume a: "(\<forall>n f. sendRequest (service w n f) \<noteq> Panic) \<and> Walk rootDir tree = Some files"
  then obtain fin where l: "mainLoop w initialDriver files = Some fin"
    using mainLoop_no_panic by blast
  then have "map fst (dispatched fin) = files"
    using mainLoop_dispatched [OF l] by (simp add: initialDriver_def)
  moreover have "main w (Some rootDir) tree = Completed fin"
    using a l by (simp add: main_def)
  ultimately show "\<exists>fin. main w (Some rootDir) tree = Completed fin
      \<and> map fst (dispatched fin) = files"
    by blast
qed

lemma returned_error_isolated_example:
  "\<exists>st'. processFile
       \<lparr>clock = int,
        service = (\<lambda>n f. if n = 0 then Response 500 ''busy'' [] else Response 200 [] []),
        rel = (\<lambda>f. None), saveSucceeds = (\<lambda>r. True), failedSave = (\<lambda>r s. s)\<rparr>
       initialDriver ''a.py'' = Some st'
     \<and> workbook st' = workbook initialDriver \<and> row st' = row initialDriver
     \<and> stored st' = stored initialDriver
     \<and> mainLoop
          \<lparr>clock = int,
           service = (\<lambda>n f. if n = 0 then Response 500 ''busy'' [] else Response 200 [] []),
           rel = (\<lambda>f. None), saveSucceeds = (\<lambda>r. True), failedSave = (\<lambda>r s. s)\<rparr>
          initialDriver ([] @ ''a.py'' # [''b.py''])
        = mainLoop
          \<lparr>clock = int,
           service = (\<lambda>n f. if n = 0 then Response 500 ''busy'' [] else Response 200 [] []),
           rel = (\<lambda>f. None), saveSucceeds = (\<lambda>r. True), failedSave = (\<lambda>r s. s)\<rparr>
          st' [''b.py'']
     \<and> (\<forall>nx. dispatched (snd (measureDuration
          \<lparr>clock = int,
           service = (\<lambda>n f. if n = 0 then Response 500 ''busy'' [] else Response 200 [] []),
           rel = (\<lambda>f. None), saveSucceeds = (\<lambda>r. True), failedSave = (\<lambda>r s. s)\<rparr>
          st' nx)) = dispatched initialDriver @ [(''a.py'', 1), (nx, 2)])"
proof -
  let ?w = "\<lparr>clock = int,
        service = (\<lambda>n f. if n = 0 then Response 500 ''busy'' [] else Response 200 [] []),
        rel = (\<lambda>f. None), saveSucceeds = (\<lambda>r. True), failedSave = (\<lambda>r s. s)\<rparr>"
  have h1: "mainLoop ?w initialDriver [] = Some initialDriver"
    by simp
  have h2: "sendRequest (service ?w (length (dispatched initialDriver)) ''a.py'')
      = Fail (NonOKStatus 500 ''busy'')"
    by (simp add: initialDriver_def)
  show ?thesis
    using returned_error_isolated [OF h1 h2, THEN conjunct1, of "[''b.py'']"]
    by (simp add: initialDriver_def)
qed

lemma assertString_not_Fail: "assertString v \<noteq> Fail e"
  by (simp add: assertString_def split: option.splits json.splits)

lemma fieldStep_not_Fail: "fieldStep v cur \<noteq> Fail e"
  using assertString_not_Fail [of v]
  by (cases "assertString v") (simp_all add: fieldStep_def Let_def)

lemma coverageStep_not_Fail: "coverageStep v i cur \<noteq> Fail e"
  using assertString_not_Fail [of v]
  by (cases "assertString v") (simp_all add: coverageStep_def Let_def)

lemma calculatedCoverageStep_not_Fail: "calculatedCoverageStep m ev \<noteq> Fail e"
  using assertString_not_Fail [of "ev ''calculatedCoverage''"]
  by (cases "assertString (ev ''calculatedCoverage'')")
     (simp_all add: calculatedCoverageStep_def Let_def)

lemma summaryStep_not_Fail: "summaryStep m ev \<noteq> Fail e"
  using coverageStep_not_Fail fieldStep_not_Fail
  by (simp add: summaryStep_def split: outcome.splits)

lemma eventStep_not_Fail: "eventStep m ev \<noteq> Fail e"
  using calculatedCoverageStep_not_Fail summaryStep_not_Fail
  by (simp add: eventStep_def split: outcome.splits)

lemma decodeLoop_Fail: "decodeLoop m evs = Fail e \<Longrightarrow> e = StreamError \<and> DecodeError \<in> set evs"
proof (induction m evs rule: decodeLoop.induct)
  case (1 m)
  then show ?case by simp
next
  case (2 m rest)
  then show ?case by simp
next
  case (3 m ev rest)
  then show ?case
    using eventStep_not_Fail [of m ev]
    by (cases "eventStep m ev") auto
qed

text \<open>
  The errors that \<^verbatim>\<open>sendRequest\<close> returns are the four kinds of failure of one item:
  building the request (marshalling, \<^verbatim>\<open>http.NewRequest\<close>), the transport, a status
  other than 200, and a stream that does not decode.
\<close>

lemma sendRequest_Fail_cases:
  "sendRequest x = Fail e \<longleftrightarrow>
     (x = MarshalFails \<and> e = MarshalError)
     \<or> (x = NewRequestFails \<and> e = NewRequestError)
     \<or> (x = DoFails \<and> e = TransportError)
     \<or> (\<exists>status body stream. x = Response status body stream \<and> status \<noteq> 200
           \<and> e = NonOKStatus status body)
     \<or> (\<exists>body stream. x = Response 200 body stream
           \<and> decodeLoop zeroMetrics stream = Fail StreamError \<and> e = StreamError)"
  by (cases x) (auto dest: decodeLoop_Fail)

text \<open>
  Claim C8, as stated, fails. When \<^verbatim>\<open>SaveAs\<close> fails the code prints a message and goes
  on (lines 125 to 130). Here the save after the first file fails: in the state in which
  the work on the second file begins the record of the first file is in the workbook in
  memory, and nothing is stored.
\<close>

theorem failed_save_counterexample:
  "mainLoop
     \<lparr>clock = int, service = (\<lambda>n f. Response 200 [] []), rel = (\<lambda>f. None),
      saveSucceeds = (\<lambda>r. False), failedSave = (\<lambda>r s. s)\<rparr>
     initialDriver [''a.py'']
   = Some \<lparr>ticks = 3, dispatched = [(''a.py'', 1)], row = 3,
       workbook = [2 \<mapsto> \<lparr>relativeName = ''a.py'', metrics = zeroMetrics, duration = 1,
          startTime = 1, endTime = 2\<rparr>],
       stored = None\<rparr>"
  by (simp add: processFile_def measureDuration_def initialDriver_def Let_def)

text \<open>
  Claim C8, amended. In the state \<open>st\<close> in which the work on the next file begins, after
  the files \<open>pre\<close>: there are at most as many records as files processed, they fill the
  rows from 2 up to \<^verbatim>\<open>row\<close>, and when the save that followed the last record succeeded
  the stored file holds every record so far. The pass for a file that succeeds writes one
  record and calls \<^verbatim>\<open>SaveAs\<close> on the whole workbook before the pass ends: the stored
  file becomes the workbook when the save succeeds, and what the failed save leaves
  otherwise.
\<close>

theorem save_after_each_record:
  assumes "mainLoop w initialDriver pre = Some st"
  shows "card (dom (workbook st)) \<le> length pre
       \<and> dom (workbook st) = {2..<row st}
       \<and> length (dispatched st) = length pre
       \<and> (2 < row st \<and> saveSucceeds w (row st - 1) \<longrightarrow> stored st = Some (workbook st))
       \<and> (\<forall>f m. sendRequest (service w (length (dispatched st)) f) = Return m \<longrightarrow>
            (\<exists>st'. processFile w st f = Some st'
               \<and> row st' = row st + 1
               \<and> dom (workbook st') = insert (row st) (dom (workbook st))
               \<and> stored st' =
                   (if saveSucceeds w (row st) then Some (workbook st')
                    else failedSave w (row st) (stored st))))"
proof -
  have "driverInv w (0 + length pre) st"
    using initialDriver_inv assms by (rule mainLoop_inv)
  then have i: "2 \<le> row st" "row st - 2 \<le> length pre" "dom (workbook st) = {2..<row st}"
    "length (dispatched st) = length pre"
    "2 < row st \<and> saveSucceeds w (row st - 1) \<longrightarrow> stored st = Some (workbook st)"
    by (simp_all add: driverInv_def)
  have c: "card (dom (workbook st)) \<le> length pre"
    using i(2) by (simp add: i(3))
  have p: "\<forall>f m. sendRequest (service w (length (dispatched st)) f) = Return m \<longrightarrow>
      (\<exists>st'. processFile w st f = Some st'
         \<and> row st' = row st + 1
         \<and> dom (workbook st') = insert (row st) (dom (workbook st))
         \<and> stored st' =
             (if saveSucceeds w (row st) then Some (workbook st')
              else failedSave w (row st) (stored st)))"
    by (simp add: processFile_Return)
  show ?thesis
    using c i(3,4,5) p by blast
qed

theorem save_after_each_record_witness:
  "card (dom (workbook
     \<lparr>ticks = 3, dispatched = [(''a.py'', 1)], row = 3,
       workbook = [2 \<mapsto> \<lparr>relativeName = ''a.py'', metrics = zeroMetrics, duration = 1,
          startTime = 1, endTime = 2\<rparr>],
       stored = Some [2 \<mapsto> \<lparr>relativeName = ''a.py'', metrics = zeroMetrics, duration = 1,
          startTime = 1, endTime = 2\<rparr>]\<rparr>)) \<le> length [''a.py'']"
proof -
  have h: "mainLoop
     \<lparr>clock = int, service = (\<lambda>n f. Response 200 [] []), rel = (\<lambda>f. None),
      saveSucceeds = (\<lambda>r. True), failedSave = (\<lambda>r s. s)\<rparr>
     initialDriver [''a.py'']
   = Some \<lparr>ticks = 3, dispatched = [(''a.py'', 1)], row = 3,
       workbook = [2 \<mapsto> \<lparr>relativeName = ''a.py'', metrics = zeroMetrics, duration = 1,
          startTime = 1, endTime = 2\<rparr>],
       stored = Some [2 \<mapsto> \<lparr>relativeName = ''a.py'', metrics = zeroMetrics, duration = 1,
          startTime = 1, endTime = 2\<rparr>]\<rparr>"
    by (simp add: processFile_def measureDuration_def initialDriver_def Let_def)
  show ?thesis
    by (rule save_after_each_record [OF h, THEN conjunct1])
qed

text \<open>
  A recognised event with a field that is absent or not a text makes the pass panic,
  whichever field it is.
\<close>

lemma summaryStep_Panic_iff:
  "summaryStep m ev = Panic \<longleftrightarrow>
     (\<exists>k \<in> {''coverageIncreased'', ''linesCovered'', ''totalLines'', ''testAdded''}.
        \<forall>s. ev k \<noteq> Some (JString s))"
proof
  assume p: "summaryStep m ev = Panic"
  show "\<exists>k \<in> {''coverageIncreased'', ''linesCovered'', ''totalLines'', ''testAdded''}.
      \<forall>s. ev k \<noteq> Some (JString s)"
  proof (rule ccontr)
    assume "\<not> ?thesis"
    then obtain c l t a where "ev ''coverageIncreased'' = Some (JString c)"
      "ev ''linesCovered'' = Some (JString l)" "ev ''totalLines'' = Some (JString t)"
      "ev ''testAdded'' = Some (JString a)"
      by auto
    then have "\<exists>m'. summaryStep m ev = Return m'"
      by (simp add: summaryStep_strings)
    with p show False by simp
  qed
next
  assume "\<exists>k \<in> {''coverageIncreased'', ''linesCovered'', ''totalLines'', ''testAdded''}.
      \<forall>s. ev k \<noteq> Some (JString s)"
  then have "\<not> (\<exists>m'. summaryStep m ev = Return m')"
    using summaryStep_Return [of m ev] by auto
  moreover have "\<forall>e. summaryStep m ev \<noteq> Fail e"
    by (simp add: summaryStep_not_Fail)
  ultimately show "summaryStep m ev = Panic"
    by (cases "summaryStep m ev") auto
qed

lemma eventStep_summary_Panic:
  assumes "ev ''dataType'' = Some (JString ''summary'')"
    and "k \<in> {''coverageIncreased'', ''linesCovered'', ''totalLines'', ''testAdded''}"
    and "\<forall>s. ev k \<noteq> Some (JString s)"
  shows "eventStep m ev = Panic"
proof -
  have "summaryStep m ev = Panic"
    unfolding summaryStep_Panic_iff using assms(2,3) by blast
  moreover have "eventStep m ev = summaryStep m ev"
    using assms(1) by (rule eventStep_summary)
  ultimately show ?thesis
    by simp
qed

lemma eventStep_calculatedCoverage_Panic:
  assumes "ev ''dataType'' = Some (JString ''calculatedCoverage'')"
    and "\<forall>s. ev ''calculatedCoverage'' \<noteq> Some (JString s)"
  shows "eventStep m ev = Panic"
proof -
  have "assertString (ev ''calculatedCoverage'') = Panic"
    using assms(2) by (auto simp: assertString_def split: option.splits json.splits)
  then show ?thesis
    using assms(1) by (simp add: eventStep_def eqString_def calculatedCoverageStep_def)
qed

text \<open>
  Claim C2, at a failing input. A \<^verbatim>\<open>calculatedCoverage\<close> event with the text
  \<^verbatim>\<open>30%\<close>, then a \<^verbatim>\<open>summary\<close> event whose \<^verbatim>\<open>coverageIncreased\<close> field is exactly
  \<^verbatim>\<open>Coverage did not increase\<close> and that carries no other field: line 234 sets
  \<^verbatim>\<open>finalCoverage\<close> to 30, then the unchecked assertion of line 252 panics on the absent
  \<^verbatim>\<open>linesCovered\<close>, and no metrics are returned.
\<close>

theorem carry_forward_scenario_panics:
  "sendRequest (Response 200 []
     [Event [''dataType'' \<mapsto> JString ''calculatedCoverage'',
             ''calculatedCoverage'' \<mapsto> JString ''30%''],
      Event [''dataType'' \<mapsto> JString ''summary'',
             ''coverageIncreased'' \<mapsto> JString ''Coverage did not increase'']]) = Panic"
proof -
  let ?cc = "[''dataType'' \<mapsto> JString ''calculatedCoverage'',
             ''calculatedCoverage'' \<mapsto> JString ''30%'']"
  let ?sm = "[''dataType'' \<mapsto> JString ''summary'',
             ''coverageIncreased'' \<mapsto> JString ''Coverage did not increase'']"
  have n: "FindAllString ''30%'' = [''30'']" by (simp add: digit_eval)
  have v: "toFloat ''30'' = 30" by (simp add: toFloat_small_integer digit_eval)
  have d: "?cc ''dataType'' = Some (JString ''calculatedCoverage'')"
    and t: "?cc ''calculatedCoverage'' = Some (JString ''30%'')"
    by simp_all
  have s1: "eventStep zeroMetrics ?cc = Return (zeroMetrics\<lparr>InitialCoverage := 30\<rparr>)"
    unfolding eventStep_calculatedCoverage [OF d t] n by (simp add: v)
  have s2: "eventStep (zeroMetrics\<lparr>InitialCoverage := 30\<rparr>) ?sm = Panic"
    by (rule eventStep_summary_Panic [of _ "''linesCovered''"]) simp_all
  show ?thesis
    by (simp add: s1 s2)
qed

text \<open>
  Claim C4, at a failing input. Two \<^verbatim>\<open>calculatedCoverage\<close> events with the texts
  \<^verbatim>\<open>10%\<close> and \<^verbatim>\<open>20%\<close>, then a \<^verbatim>\<open>summary\<close> event whose \<^verbatim>\<open>coverageIncreased\<close> field
  is \<^verbatim>\<open>5\<close> and that carries no other field: line 241 sets \<^verbatim>\<open>finalCoverage\<close> to 5, then
  the unchecked assertion of line 252 panics on the absent \<^verbatim>\<open>linesCovered\<close>, and no
  metrics are returned.
\<close>

theorem ordering_scenario_panics:
  "sendRequest (Response 200 []
     [Event [''dataType'' \<mapsto> JString ''calculatedCoverage'',
             ''calculatedCoverage'' \<mapsto> JString ''10%''],
      Event [''dataType'' \<mapsto> JString ''calculatedCoverage'',
             ''calculatedCoverage'' \<mapsto> JString ''20%''],
      Event [''dataType'' \<mapsto> JString ''summary'',
             ''coverageIncreased'' \<mapsto> JString ''5'']]) = Panic"
proof -
  let ?c1 = "[''dataType'' \<mapsto> JString ''calculatedCoverage'',
             ''calculatedCoverage'' \<mapsto> JString ''10%'']"
  let ?c2 = "[''dataType'' \<mapsto> JString ''calculatedCoverage'',
             ''calculatedCoverage'' \<mapsto> JString ''20%'']"
  let ?sm = "[''dataType'' \<mapsto> JString ''summary'', ''coverageIncreased'' \<mapsto> JString ''5'']"
  have n: "FindAllString ''10%'' = [''10'']" "FindAllString ''20%'' = [''20'']"
    by (simp_all add: digit_eval)
  have v: "toFloat ''10'' = 10" "toFloat ''20'' = 20"
    by (simp_all add: toFloat_small_integer digit_eval)
  have d1: "?c1 ''dataType'' = Some (JString ''calculatedCoverage'')"
    and t1: "?c1 ''calculatedCoverage'' = Some (JString ''10%'')"
    and d2: "?c2 ''dataType'' = Some (JString ''calculatedCoverage'')"
    and t2: "?c2 ''calculatedCoverage'' = Some (JString ''20%'')"
    by simp_all
  have s1: "eventStep zeroMetrics ?c1 = Return (zeroMetrics\<lparr>InitialCoverage := 10\<rparr>)"
    unfolding eventStep_calculatedCoverage [OF d1 t1] n by (simp add: v)
  have s2: "eventStep (zeroMetrics\<lparr>InitialCoverage := 10\<rparr>) ?c2
      = Return (zeroMetrics\<lparr>InitialCoverage := 20\<rparr>)"
    unfolding eventStep_calculatedCoverage [OF d2 t2] n by (simp add: v)
  have s3: "eventStep (zeroMetrics\<lparr>InitialCoverage := 20\<rparr>) ?sm = Panic"
    by (rule eventStep_summary_Panic [of _ "''linesCovered''"]) simp_all
  show ?thesis
    by (simp add: s1 s2 s3)
qed

text \<open>
  Claim C6, at a failing input. Two files, and for the first a stream that decodes without
  error but whose \<^verbatim>\<open>summary\<close> event carries \<^verbatim>\<open>linesCovered\<close> as a JSON number: the
  pass for the first file panics at line 252, nothing catches the panic, and the run ends
  there, before any request for the second file.
\<close>

theorem run_ends_early:
  "processFile
     \<lparr>clock = int,
      service = (\<lambda>n f. Response 200 []
        [Event [''dataType'' \<mapsto> JString ''summary'', ''coverageIncreased'' \<mapsto> JString ''5'',
                ''linesCovered'' \<mapsto> JNumber 12, ''totalLines'' \<mapsto> JString ''40'',
                ''testAdded'' \<mapsto> JString ''1'']]),
      rel = (\<lambda>f. None), saveSucceeds = (\<lambda>r. True), failedSave = (\<lambda>r s. s)\<rparr>
     initialDriver ''/w/a.py'' = None
   \<and> main
     \<lparr>clock = int,
      service = (\<lambda>n f. Response 200 []
        [Event [''dataType'' \<mapsto> JString ''summary'', ''coverageIncreased'' \<mapsto> JString ''5'',
                ''linesCovered'' \<mapsto> JNumber 12, ''totalLines'' \<mapsto> JString ''40'',
                ''testAdded'' \<mapsto> JString ''1'']]),
      rel = (\<lambda>f. None), saveSucceeds = (\<lambda>r. True), failedSave = (\<lambda>r s. s)\<rparr>
     (Some ''/w'') (Dir ''w'' [File ''a.py'', File ''b.py'']) = Crashed"
proof -
  let ?sm = "[''dataType'' \<mapsto> JString ''summary'', ''coverageIncreased'' \<mapsto> JString ''5'',
                ''linesCovered'' \<mapsto> JNumber 12, ''totalLines'' \<mapsto> JString ''40'',
                ''testAdded'' \<mapsto> JString ''1'']"
  let ?w = "\<lparr>clock = int, service = (\<lambda>n f. Response 200 [] [Event ?sm]),
      rel = (\<lambda>f. None), saveSucceeds = (\<lambda>r. True), failedSave = (\<lambda>r s. s)\<rparr>"
  have e: "eventStep zeroMetrics ?sm = Panic"
    by (rule eventStep_summary_Panic [of _ "''linesCovered''"]) simp_all
  then have s: "sendRequest (Response 200 [] [Event ?sm]) = Panic"
    by simp
  have p: "processFile ?w initialDriver ''/w/a.py'' = None"
    by (rule processFile_Panic) (simp add: s del: sendRequest.simps)
  have w: "Walk ''/w'' (Dir ''w'' [File ''a.py'', File ''b.py'']) = Some [''/w/a.py'', ''/w/b.py'']"
    by (simp add: Walk_def Join_def Ext_def isTestFile_def)
  have "main ?w (Some ''/w'') (Dir ''w'' [File ''a.py'', File ''b.py'']) = Crashed"
    by (simp add: main_def w p del: fun_upd_apply)
  with p show ?thesis by simp
qed

end
